theory Spec2Isabelle
  imports Complex_Main "HOL-Library.Word" "HOL-Library.Sublist" "HOL-Library.Product_Lexorder"
begin

section \<open>Strings\<close>

text \<open>
  A JavaScript string is a sequence of 16-bit code units. String literals of the source
  are written \<open>lit ''...''\<close>; a line feed is the code unit \<open>0x0A\<close>.
\<close>

type_synonym cu = "16 word"
type_synonym jsstring = "cu list"

abbreviation lit :: "string \<Rightarrow> jsstring" where
  "lit s \<equiv> map of_char s"

text \<open>
  The code units that \<open>String.prototype.trim\<close> strips and that the regular expression
  class \<open>\s\<close> matches: ECMAScript's WhiteSpace and LineTerminator.
\<close>

definition isWhiteSpace :: "cu \<Rightarrow> bool" where
  "isWhiteSpace c \<longleftrightarrow>
     c \<in> {0x09, 0x0A, 0x0B, 0x0C, 0x0D, 0x20, 0xA0, 0x1680,
          0x2028, 0x2029, 0x202F, 0x205F, 0x3000, 0xFEFF}
     \<or> (0x2000 \<le> c \<and> c \<le> 0x200A)"

definition trim :: "jsstring \<Rightarrow> jsstring" where
  "trim s = rev (dropWhile isWhiteSpace (rev (dropWhile isWhiteSpace s)))"

text \<open>A string is truthy when it is not empty; an absent or null one is falsy.\<close>

fun truthy :: "jsstring option \<Rightarrow> bool" where
  "truthy None = False"
| "truthy (Some s) = (s \<noteq> [])"

text \<open>
  \<open>String.prototype.toLowerCase\<close>, code unit by code unit. The case mapping is written
  out for Basic Latin, Latin-1 Supplement and Latin Extended-A (which hold every letter of
  the month names), for the capital I with dot above, which lower-cases to two code
  units, and for the three code points outside these blocks whose lower case lies inside
  them (Kelvin sign, Angstrom sign, capital sharp s). The case mappings of other scripts
  are left out: their lower-case forms lie outside these blocks, so they cannot turn a
  string into a month name or into a string starting with \<open>image/\<close>.
\<close>

definition toLowerCaseUnit :: "cu \<Rightarrow> jsstring" where
  "toLowerCaseUnit c =
     (if 0x41 \<le> c \<and> c \<le> 0x5A then [c + 0x20]
      else if 0xC0 \<le> c \<and> c \<le> 0xDE \<and> c \<noteq> 0xD7 then [c + 0x20]
      else if c = 0x130 then [0x69, 0x307]
      else if c = 0x178 then [0xFF]
      else if (0x100 \<le> c \<and> c \<le> 0x137 \<or> 0x14A \<le> c \<and> c \<le> 0x177) \<and> even (unat c) then [c + 1]
      else if (0x139 \<le> c \<and> c \<le> 0x148 \<or> 0x179 \<le> c \<and> c \<le> 0x17E) \<and> odd (unat c) then [c + 1]
      else if c = 0x212A then [0x6B]
      else if c = 0x212B then [0xE5]
      else if c = 0x1E9E then [0xDF]
      else [c])"

definition toLowerCase :: "jsstring \<Rightarrow> jsstring" where
  "toLowerCase s = concat (map toLowerCaseUnit s)"

section \<open>The document flattener (issue/[key]/route.ts, adfToPlainText)\<close>

text \<open>
  A node of the document tree, as \<open>adfToPlainText\<close> reads it: null or undefined, a bare
  string, an array of nodes, or an object. Of an object the function reads \<open>type\<close>,
  \<open>text\<close>, \<open>marks\<close> (of each mark its \<open>type\<close> and \<open>attrs.href\<close>), \<open>attrs.id\<close>,
  \<open>attrs.url\<close> and \<open>content\<close>. These fields hold strings, as the document format
  types them; \<open>None\<close> is a field that is absent or null. A missing \<open>marks\<close> array is
  the empty list, a missing \<open>content\<close> is \<open>ANull\<close>, and a null entry of \<open>marks\<close> is a
  mark with no type and no href (\<open>m?.type\<close> reads both the same way).
\<close>

datatype mark = Mark (mark_type: "jsstring option") (mark_href: "jsstring option")

datatype adf =
    ANull
  | AString jsstring
  | AArray "adf list"
  | AObject (node_type: "jsstring option") (node_text: "jsstring option")
      (node_marks: "mark list") (attrs_id: "jsstring option") (attrs_url: "jsstring option")
      (node_content: adf)

definition blockTypes :: "jsstring list" where
  "blockTypes = [lit ''doc'', lit ''paragraph'', lit ''heading'', lit ''blockquote'',
     lit ''listItem'', lit ''bulletList'', lit ''orderedList'', lit ''codeBlock'',
     lit ''panel'', lit ''rule'', lit ''table'', lit ''tableRow'', lit ''tableCell'']"

text \<open>The text node's branch (lines 19 to 33), with \<open>marks.find\<close> as \<open>find\<close>.\<close>

definition textNode :: "jsstring option \<Rightarrow> mark list \<Rightarrow> jsstring" where
  "textNode txt ms =
     (let text = (case txt of None \<Rightarrow> [] | Some t \<Rightarrow> t);
          linkMark = find (\<lambda>m. mark_type m = Some (lit ''link'')) ms;
          href = (case linkMark of None \<Rightarrow> None | Some m \<Rightarrow> mark_href m)
      in case href of
           None \<Rightarrow> text
         | Some h \<Rightarrow>
             if h \<noteq> [] then
               (if text \<noteq> [] \<and> trim text \<noteq> [] \<and> trim text \<noteq> h
                then text @ lit '' ('' @ h @ lit '')''
                else h)
             else text)"

text \<open>The media node's branch (lines 49 to 53).\<close>

definition mediaNode :: "jsstring option \<Rightarrow> jsstring" where
  "mediaNode aid =
     (let id = (case aid of None \<Rightarrow> [] | Some i \<Rightarrow> i)
      in if id \<noteq> [] then lit ''[ATTACHMENT_ID:'' @ id @ lit '']'' else lit ''[ATTACHMENT]'')"

fun adfToPlainText :: "adf \<Rightarrow> jsstring" where
  "adfToPlainText ANull = []"
| "adfToPlainText (AString s) = s"
| "adfToPlainText (AArray ns) = concat (map adfToPlainText ns)"
| "adfToPlainText (AObject ty txt ms aid aurl cont) =
     (if ty = Some (lit ''text'') then textNode txt ms
      else if ty = Some (lit ''hardBreak'') then [0x0A]
      else if ty = Some (lit ''inlineCard'') \<or> ty = Some (lit ''blockCard'')
              \<or> ty = Some (lit ''embedCard'') then
        (if truthy aurl then lit ''[Link: '' @ the aurl @ lit '']'' @ [0x0A]
         else lit ''[Link]'' @ [0x0A])
      else if ty = Some (lit ''media'') then mediaNode aid
      else if ty = Some (lit ''mediaSingle'') \<or> ty = Some (lit ''mediaGroup'') then
        (let content = adfToPlainText cont
         in if content \<noteq> [] then content @ [0x0A] else lit ''[ATTACHMENT]'' @ [0x0A])
      else
        (let content = adfToPlainText cont
         in if (\<exists>t \<in> set blockTypes. ty = Some t) then content @ [0x0A] else content))"

section \<open>Attachment placeholders (issue/[key]/route.ts, enrichPlaceholders)\<close>

text \<open>
  An entry of the upstream \<open>attachment\<close> array, with the fields the route reads; \<open>None\<close>
  is a field that is absent or null.
\<close>

record attachment =
  att_id :: "jsstring option"
  att_filename :: "jsstring option"
  att_mimeType :: "jsstring option"
  att_size :: "nat option"
  att_content :: "jsstring option"

text \<open>The lookup by id (lines 139 to 142): a later entry with the same id replaces an earlier one.\<close>

definition attachmentById :: "attachment list \<Rightarrow> (jsstring \<rightharpoonup> attachment)" where
  "attachmentById attachmentsRaw =
     foldl (\<lambda>m a. case att_id a of
                     None \<Rightarrow> m
                   | Some i \<Rightarrow> if i \<noteq> [] then m(i \<mapsto> a) else m)
       Map.empty attachmentsRaw"

definition placeholderLabelForAttachment :: "attachment \<Rightarrow> jsstring" where
  "placeholderLabelForAttachment a =
     (let mime = toLowerCase (case att_mimeType a of None \<Rightarrow> [] | Some m \<Rightarrow> m);
          isImage = prefix (lit ''image/'') mime;
          filename = (case att_filename a of None \<Rightarrow> lit ''file'' | Some f \<Rightarrow> f)
      in if isImage then lit ''[Image: '' @ filename @ lit '']''
         else lit ''[File: '' @ filename @ lit '']'')"

text \<open>
  \<open>String.prototype.replace\<close> with a global regular expression that looks at nothing
  before the match. The matcher is applied to the rest of the input; it returns the
  replacement and the length of the match. The scan goes left to right: after a match it
  goes on behind the match, and after an empty match it copies one code unit; where
  there is no match it copies one code unit.
\<close>

function replaceGlobal :: "(jsstring \<Rightarrow> (jsstring \<times> nat) option) \<Rightarrow> jsstring \<Rightarrow> jsstring" where
  "replaceGlobal m [] = (case m [] of None \<Rightarrow> [] | Some (r, n) \<Rightarrow> r)"
| "replaceGlobal m (c # cs) =
     (case m (c # cs) of
        None \<Rightarrow> c # replaceGlobal m cs
      | Some (r, n) \<Rightarrow>
          if n = 0 then r @ c # replaceGlobal m cs
          else r @ replaceGlobal m (drop n (c # cs)))"
  by pat_completeness auto
termination
  by (relation "measure (\<lambda>(m, s). length s)") auto

text \<open>
  The expression \<open>/\[ATTACHMENT_ID:([^\]]+)\]/\<close> at the start of \<open>s\<close>: the fifteen code
  units of the opening, the longest run of code units other than the closing bracket,
  which must not be empty, and the closing bracket. The callback \<open>f\<close> gets the run.
\<close>

definition matchAttachmentId :: "(jsstring \<Rightarrow> jsstring) \<Rightarrow> jsstring \<Rightarrow> (jsstring \<times> nat) option" where
  "matchAttachmentId f s =
     (if prefix (lit ''[ATTACHMENT_ID:'') s then
        (let rest = drop 15 s; id = takeWhile (\<lambda>c. c \<noteq> 0x5D) rest
         in if id \<noteq> [] \<and> length id < length rest then Some (f id, 15 + length id + 1)
            else None)
      else None)"

text \<open>A regular expression that matches one fixed string, with a fixed replacement.\<close>

definition matchLiteral :: "jsstring \<Rightarrow> jsstring \<Rightarrow> jsstring \<Rightarrow> (jsstring \<times> nat) option" where
  "matchLiteral pat rep s = (if prefix pat s then Some (rep, length pat) else None)"

text \<open>The callback of the first replacement (lines 155 to 159).\<close>

definition labelFor :: "(jsstring \<rightharpoonup> attachment) \<Rightarrow> jsstring \<Rightarrow> jsstring" where
  "labelFor byId i =
     (case byId i of
        None \<Rightarrow> lit ''[Attachment]''
      | Some a \<Rightarrow> placeholderLabelForAttachment a)"

definition idMatcher :: "(jsstring \<rightharpoonup> attachment) \<Rightarrow> jsstring \<Rightarrow> (jsstring \<times> nat) option" where
  "idMatcher byId = matchAttachmentId (labelFor byId)"

definition bareMatcher :: "jsstring \<Rightarrow> (jsstring \<times> nat) option" where
  "bareMatcher = matchLiteral (lit ''[ATTACHMENT]'') (lit ''[Attachment]'')"

definition enrichPlaceholders :: "(jsstring \<rightharpoonup> attachment) \<Rightarrow> jsstring \<Rightarrow> jsstring" where
  "enrichPlaceholders byId text =
     (if text = [] then []
      else replaceGlobal bareMatcher (replaceGlobal (idMatcher byId) text))"

text \<open>
  The vocabulary of the claims about placeholders: the token that carries an id, and a
  text cut into pieces that are plain text, a token with an id, or the bare token.
\<close>

definition idToken :: "jsstring \<Rightarrow> jsstring" where
  "idToken i = lit ''[ATTACHMENT_ID:'' @ i @ lit '']''"

datatype piece = Plain jsstring | IdToken jsstring | BareToken

fun render :: "piece \<Rightarrow> jsstring" where
  "render (Plain s) = s"
| "render (IdToken i) = idToken i"
| "render BareToken = lit ''[ATTACHMENT]''"

fun resolved :: "(jsstring \<rightharpoonup> attachment) \<Rightarrow> piece \<Rightarrow> jsstring" where
  "resolved byId (Plain s) = s"
| "resolved byId (IdToken i) =
     (case byId i of
        None \<Rightarrow> lit ''[Attachment]''
      | Some a \<Rightarrow>
          if prefix (lit ''image/'') (toLowerCase (case att_mimeType a of None \<Rightarrow> [] | Some m \<Rightarrow> m))
          then lit ''[Image: '' @ (case att_filename a of None \<Rightarrow> lit ''file'' | Some f \<Rightarrow> f) @ lit '']''
          else lit ''[File: '' @ (case att_filename a of None \<Rightarrow> lit ''file'' | Some f \<Rightarrow> f) @ lit '']'')"
| "resolved byId BareToken = lit ''[Attachment]''"

text \<open>
  Both regular expressions of \<open>enrichPlaceholders\<close> are bracket matchers: a match is not
  empty, starts with an opening bracket and holds a closing bracket, and the replacement
  starts with an opening bracket.
\<close>

definition bracketMatcher :: "(jsstring \<Rightarrow> (jsstring \<times> nat) option) \<Rightarrow> bool" where
  "bracketMatcher m \<longleftrightarrow>
     (\<forall>s r n. m s = Some (r, n) \<longrightarrow>
        (\<exists>t. s = 0x5B # t) \<and> 0 < n \<and> 0x5D \<in> set (take n s) \<and> (\<exists>r'. r = 0x5B # r'))"

text \<open>
  The shape of the generic label: an opening bracket, no other opening bracket, and the
  next two code units are not \<open>AT\<close>.
\<close>

definition labelShape :: "jsstring \<Rightarrow> bool" where
  "labelShape r \<longleftrightarrow>
     (\<exists>a b r'. r = 0x5B # a # b # r' \<and> 0x5B \<notin> set (a # b # r') \<and> (a \<noteq> 0x41 \<or> b \<noteq> 0x54))"

text \<open>A token with a non-empty id starts the string.\<close>

definition idTokenAt :: "jsstring \<Rightarrow> bool" where
  "idTokenAt u \<longleftrightarrow> matchAttachmentId (\<lambda>i. []) u \<noteq> None"

text \<open>The text between the two passes, piece by piece.\<close>

fun halfway :: "(jsstring \<rightharpoonup> attachment) \<Rightarrow> piece \<Rightarrow> jsstring" where
  "halfway byId (Plain s) = s"
| "halfway byId (IdToken i) = labelFor byId i"
| "halfway byId BareToken = lit ''[ATTACHMENT]''"

text \<open>
  A text read left to right is cut exactly when no token starts inside a piece of plain
  text, so that the pieces are its tokens, leftmost first, and the text between them: \<open>noTokenIn s t\<close> says so of the plain text \<open>s\<close> followed by \<open>t\<close>. The id of a token
  is not empty and holds no closing bracket.
\<close>

fun noTokenIn :: "jsstring \<Rightarrow> jsstring \<Rightarrow> bool" where
  "noTokenIn [] t = True"
| "noTokenIn (c # cs) t =
     (\<not> idTokenAt (c # cs @ t) \<and> \<not> prefix (lit ''[ATTACHMENT]'') (c # cs @ t) \<and> noTokenIn cs t)"

fun exactCut :: "piece list \<Rightarrow> bool" where
  "exactCut [] = True"
| "exactCut (Plain s # ps) = (noTokenIn s (concat (map render ps)) \<and> exactCut ps)"
| "exactCut (IdToken i # ps) = (i \<noteq> [] \<and> 0x5D \<notin> set i \<and> exactCut ps)"
| "exactCut (BareToken # ps) = exactCut ps"

text \<open>The exact cut of a text: at each place a token with an id, the bare token, or one code unit.\<close>

function cut :: "jsstring \<Rightarrow> piece list" where
  "cut [] = []"
| "cut (c # cs) =
     (if idTokenAt (c # cs) then
        (let i = takeWhile (\<lambda>x. x \<noteq> 0x5D) (drop 15 (c # cs))
         in IdToken i # cut (drop (15 + length i + 1) (c # cs)))
      else if prefix (lit ''[ATTACHMENT]'') (c # cs) then BareToken # cut (drop 12 (c # cs))
      else Plain [c] # cut cs)"
  by pat_completeness auto
termination
  by (relation "measure length") auto

declare cut.simps [simp del]

text \<open>The expression matches somewhere in the string.\<close>

definition holdsIdToken :: "jsstring \<Rightarrow> bool" where
  "holdsIdToken s \<longleftrightarrow> (\<exists>v \<in> set (suffixes s). idTokenAt v)"

text \<open>No label made from an attachment of the lookup holds a token with an id.\<close>

definition tokenFreeLabels :: "(jsstring \<rightharpoonup> attachment) \<Rightarrow> bool" where
  "tokenFreeLabels byId \<longleftrightarrow>
     (\<forall>i a. byId i = Some a \<longrightarrow> \<not> holdsIdToken (placeholderLabelForAttachment a))"

text \<open>No label of a token of the text holds the bare token.\<close>

definition labelsStay :: "(jsstring \<rightharpoonup> attachment) \<Rightarrow> piece list \<Rightarrow> bool" where
  "labelsStay byId ps \<longleftrightarrow>
     (\<forall>p \<in> set ps. case p of
         IdToken i \<Rightarrow> \<not> sublist (lit ''[ATTACHMENT]'') (labelFor byId i)
       | _ \<Rightarrow> True)"

text \<open>Attachments for the examples below: an image, and a file whose name is a token.\<close>

definition png :: attachment where
  "png = \<lparr>att_id = Some (lit ''10001''), att_filename = Some (lit ''a.png''),
     att_mimeType = Some (lit ''Image/PNG''), att_size = None, att_content = None\<rparr>"

definition oddName :: attachment where
  "oddName = \<lparr>att_id = Some (lit ''1''), att_filename = Some (lit ''[ATTACHMENT_ID:2]''),
     att_mimeType = None, att_size = None, att_content = None\<rparr>"

text \<open>
  A filename with brackets, a filename that holds the bare token, an id that holds the
  closing bracket, and a text cut into its pieces.
\<close>

definition shot :: attachment where
  "shot = \<lparr>att_id = Some (lit ''7''), att_filename = Some (lit ''shot [1].png''),
     att_mimeType = None, att_size = None, att_content = None\<rparr>"

definition bareName :: attachment where
  "bareName = \<lparr>att_id = Some (lit ''3''), att_filename = Some (lit ''x[ATTACHMENT]''),
     att_mimeType = None, att_size = None, att_content = None\<rparr>"

definition bracketId :: attachment where
  "bracketId = \<lparr>att_id = Some (lit ''a]b''), att_filename = Some (lit ''f.txt''),
     att_mimeType = None, att_size = None, att_content = None\<rparr>"

definition examplePieces :: "piece list" where
  "examplePieces =
     [Plain (lit ''[Link: http://a] see ''), IdToken (lit ''10001''), Plain (lit '', ''),
      IdToken (lit ''7''), Plain (lit '', ''), IdToken (lit ''8''), Plain (lit '' and ''),
      BareToken]"

section \<open>Numbers\<close>

text \<open>
  A Number value: not-a-number, an infinity, or a finite binary64 value, held as the
  rational it stands for (the two zeros are not told apart).
\<close>

datatype jsnum = NaN | PosInf | NegInf | Fin rat

definition powInt :: "rat \<Rightarrow> int \<Rightarrow> rat" where
  "powInt b e = (if 0 \<le> e then b ^ nat e else 1 / b ^ nat (- e))"

text \<open>The exponent \<open>e\<close> with \<open>2 ^ e \<le> x < 2 ^ (e + 1)\<close>, for a positive \<open>x\<close>.\<close>

function floorLog2 :: "rat \<Rightarrow> int" where
  "floorLog2 x =
     (if 2 \<le> x then floorLog2 (x / 2) + 1
      else if 0 < x \<and> x < 1 then floorLog2 (x * 2) - 1
      else 0)"
  by pat_completeness auto

termination
proof (relation "measure (\<lambda>x. if 1 \<le> x then nat \<lfloor>x\<rfloor> else nat \<lfloor>1 / x\<rfloor> + 2)")
  show "wf (measure (\<lambda>x::rat. if 1 \<le> x then nat \<lfloor>x\<rfloor> else nat \<lfloor>1 / x\<rfloor> + 2))" by simp
next
  fix x :: rat assume x: "2 \<le> x"
  then have "x / 2 \<le> x - 1" by simp
  then have "\<lfloor>x / 2\<rfloor> \<le> \<lfloor>x - 1\<rfloor>" by (rule floor_mono)
  then have "\<lfloor>x / 2\<rfloor> < \<lfloor>x\<rfloor>" by simp
  moreover have "0 < \<lfloor>x\<rfloor>" using x by simp
  ultimately show "(x / 2, x) \<in> measure (\<lambda>x. if 1 \<le> x then nat \<lfloor>x\<rfloor> else nat \<lfloor>1 / x\<rfloor> + 2)"
    using x by simp
next
  fix x :: rat assume "\<not> 2 \<le> x" and x: "0 < x \<and> x < 1"
  show "(x * 2, x) \<in> measure (\<lambda>x. if 1 \<le> x then nat \<lfloor>x\<rfloor> else nat \<lfloor>1 / x\<rfloor> + 2)"
  proof (cases "1 \<le> x * 2")
    case True
    with x have "\<lfloor>x * 2\<rfloor> = 1" by (simp add: floor_eq_iff)
    with True x show ?thesis by simp
  next
    case False
    with x have "2 < 1 / x" by (simp add: field_simps)
    then have "1 / (x * 2) \<le> 1 / x - 1" by (simp add: field_simps)
    then have "\<lfloor>1 / (x * 2)\<rfloor> \<le> \<lfloor>1 / x - 1\<rfloor>" by (rule floor_mono)
    then have "\<lfloor>1 / (x * 2)\<rfloor> < \<lfloor>1 / x\<rfloor>" by simp
    moreover have "0 < \<lfloor>1 / x\<rfloor>" using \<open>2 < 1 / x\<close> by simp
    ultimately show ?thesis using False x by simp
  qed
qed

declare floorLog2.simps [simp del]

definition roundHalfEven :: "rat \<Rightarrow> int" where
  "roundHalfEven q =
     (let f = \<lfloor>q\<rfloor>; d = q - of_int f
      in if d < 1 / 2 then f else if 1 / 2 < d then f + 1 else if even f then f else f + 1)"

text \<open>
  The binary64 value of a rational: round to nearest, ties to even, with 53 significant
  bits, the smallest exponent \<open>-1022\<close>, and an infinity from \<open>2 ^ 1024\<close> on.
\<close>

definition round64 :: "rat \<Rightarrow> jsnum" where
  "round64 x =
     (if x = 0 then Fin 0
      else
        (let e = max (floorLog2 \<bar>x\<bar>) (- 1022);
             ulp = powInt 2 (e - 52);
             r = of_int (roundHalfEven (x / ulp)) * ulp
         in if 2 ^ 1024 \<le> \<bar>r\<bar> then (if 0 < x then PosInf else NegInf) else Fin r))"

text \<open>
  Addition and multiplication of Number values: the exact result, rounded. An undefined
  form (an infinity minus itself, zero times an infinity) is not-a-number.
\<close>

fun negNum :: "jsnum \<Rightarrow> jsnum" where
  "negNum NaN = NaN"
| "negNum PosInf = NegInf"
| "negNum NegInf = PosInf"
| "negNum (Fin a) = Fin (- a)"

fun addNum :: "jsnum \<Rightarrow> jsnum \<Rightarrow> jsnum" where
  "addNum (Fin a) (Fin b) = round64 (a + b)"
| "addNum NaN _ = NaN"
| "addNum _ NaN = NaN"
| "addNum PosInf NegInf = NaN"
| "addNum NegInf PosInf = NaN"
| "addNum PosInf _ = PosInf"
| "addNum NegInf _ = NegInf"
| "addNum (Fin a) b = b"

definition subNum :: "jsnum \<Rightarrow> jsnum \<Rightarrow> jsnum" where
  "subNum a b = addNum a (negNum b)"

fun mulNum :: "jsnum \<Rightarrow> jsnum \<Rightarrow> jsnum" where
  "mulNum (Fin a) (Fin b) = round64 (a * b)"
| "mulNum NaN _ = NaN"
| "mulNum _ NaN = NaN"
| "mulNum PosInf PosInf = PosInf"
| "mulNum PosInf NegInf = NegInf"
| "mulNum NegInf PosInf = NegInf"
| "mulNum NegInf NegInf = PosInf"
| "mulNum PosInf (Fin b) = (if b = 0 then NaN else if 0 < b then PosInf else NegInf)"
| "mulNum NegInf (Fin b) = (if b = 0 then NaN else if 0 < b then NegInf else PosInf)"
| "mulNum (Fin a) PosInf = (if a = 0 then NaN else if 0 < a then PosInf else NegInf)"
| "mulNum (Fin a) NegInf = (if a = 0 then NaN else if 0 < a then NegInf else PosInf)"

section \<open>The conversion of a string to a Number\<close>

text \<open>
  \<open>Number(s)\<close> for a string: the StringNumericLiteral grammar of ECMAScript. Surrounding
  whitespace is dropped and the empty string is zero. A literal is a signed decimal
  (digits with an optional fraction and an optional exponent, or \<open>Infinity\<close>) or an
  unsigned binary, octal or hexadecimal integer; any other string is not-a-number. The
  value is the literal's mathematical value rounded to binary64.
\<close>

definition isDigit :: "cu \<Rightarrow> bool" where
  "isDigit c \<longleftrightarrow> 0x30 \<le> c \<and> c \<le> 0x39"

definition digitValue :: "cu \<Rightarrow> nat option" where
  "digitValue c =
     (if 0x30 \<le> c \<and> c \<le> 0x39 then Some (unat c - 0x30)
      else if 0x61 \<le> c \<and> c \<le> 0x66 then Some (unat c - 0x61 + 10)
      else if 0x41 \<le> c \<and> c \<le> 0x46 then Some (unat c - 0x41 + 10)
      else None)"

text \<open>The value of a run of digits in a base; \<open>None\<close> when a code unit is no digit of the base.\<close>

fun digitsValue :: "nat \<Rightarrow> nat \<Rightarrow> jsstring \<Rightarrow> nat option" where
  "digitsValue base acc [] = Some acc"
| "digitsValue base acc (c # cs) =
     (case digitValue c of
        None \<Rightarrow> None
      | Some d \<Rightarrow> if d < base then digitsValue base (acc * base + d) cs else None)"

definition digits :: "nat \<Rightarrow> jsstring \<Rightarrow> nat option" where
  "digits base s = (if s = [] then None else digitsValue base 0 s)"

text \<open>What follows the mantissa: nothing, or an exponent part.\<close>

definition exponentPart :: "jsstring \<Rightarrow> int option" where
  "exponentPart s =
     (case s of
        [] \<Rightarrow> Some 0
      | c # cs \<Rightarrow>
          if c = 0x65 \<or> c = 0x45 then
            (case cs of
               [] \<Rightarrow> None
             | d # ds \<Rightarrow>
                 if d = 0x2B then map_option int (digits 10 ds)
                 else if d = 0x2D then map_option (\<lambda>n. - int n) (digits 10 ds)
                 else map_option int (digits 10 cs))
          else None)"

definition strUnsignedDecimalLiteral :: "jsstring \<Rightarrow> jsnum option" where
  "strUnsignedDecimalLiteral s =
     (if s = lit ''Infinity'' then Some PosInf
      else
        (let ip = takeWhile isDigit s;
             r1 = dropWhile isDigit s;
             hasDot = (case r1 of [] \<Rightarrow> False | c # cs \<Rightarrow> c = 0x2E);
             fp = (if hasDot then takeWhile isDigit (tl r1) else []);
             r2 = (if hasDot then dropWhile isDigit (tl r1) else r1)
         in if ip = [] \<and> fp = [] then None
            else
              (case (digitsValue 10 0 (ip @ fp), exponentPart r2) of
                 (Some m, Some e) \<Rightarrow> Some (round64 (of_nat m * powInt 10 (e - int (length fp))))
               | _ \<Rightarrow> None)))"

definition nonDecimalIntegerLiteral :: "jsstring \<Rightarrow> jsnum option" where
  "nonDecimalIntegerLiteral s =
     (case s of
        z # x # ds \<Rightarrow>
          if z \<noteq> 0x30 then None
          else if x = 0x78 \<or> x = 0x58 then map_option (\<lambda>n. round64 (of_nat n)) (digits 16 ds)
          else if x = 0x6F \<or> x = 0x4F then map_option (\<lambda>n. round64 (of_nat n)) (digits 8 ds)
          else if x = 0x62 \<or> x = 0x42 then map_option (\<lambda>n. round64 (of_nat n)) (digits 2 ds)
          else None
      | _ \<Rightarrow> None)"

definition strNumericLiteral :: "jsstring \<Rightarrow> jsnum option" where
  "strNumericLiteral s =
     (case nonDecimalIntegerLiteral s of
        Some v \<Rightarrow> Some v
      | None \<Rightarrow>
          (case s of
             [] \<Rightarrow> None
           | c # cs \<Rightarrow>
               if c = 0x2B then strUnsignedDecimalLiteral cs
               else if c = 0x2D then map_option negNum (strUnsignedDecimalLiteral cs)
               else strUnsignedDecimalLiteral s))"

definition Number :: "jsstring \<Rightarrow> jsnum" where
  "Number s =
     (let t = trim s
      in if t = [] then Fin 0
         else (case strNumericLiteral t of None \<Rightarrow> NaN | Some v \<Rightarrow> v))"

section \<open>The release-name parser (issues/route.ts, parseLtFixVersion)\<close>

text \<open>
  \<open>s.split(/\s+/)\<close>: the pieces of \<open>s\<close> between the runs of whitespace. A run at the start
  or at the end of \<open>s\<close> leaves an empty piece there, and the empty string splits into one
  empty piece.
\<close>

function splitWs :: "jsstring \<Rightarrow> jsstring list" where
  "splitWs [] = [[]]"
| "splitWs (c # cs) =
     (if isWhiteSpace c then [] # splitWs (dropWhile isWhiteSpace cs)
      else (case splitWs cs of [] \<Rightarrow> [[c]] | t # ts \<Rightarrow> (c # t) # ts))"
  by pat_completeness auto

termination
  by (relation "measure length") (auto simp: length_dropWhile_le less_Suc_eq_le)

fun join :: "jsstring \<Rightarrow> jsstring list \<Rightarrow> jsstring" where
  "join sep [] = []"
| "join sep [x] = x"
| "join sep (x # y # ys) = x @ sep @ join sep (y # ys)"

text \<open>
  The month table is an object literal, so reading a property of it also finds what the
  object inherits from \<open>Object.prototype\<close>. \<open>monthTable\<close> holds the sixteen entries of
  the literal (lines 3 to 20); \<open>LT_MONTH_TO_NUM\<close> is the property read. An inherited
  property is a function, or for \<open>__proto__\<close> the prototype object: never a number.
\<close>

definition monthTable :: "(jsstring \<times> nat) list" where
  "monthTable =
     [(lit ''sausis'', 1), (lit ''vasaris'', 2), (lit ''kovas'', 3), (lit ''balandis'', 4),
      (lit ''gegu'' @ [0x17E, 0x117], 5), (lit ''geguze'', 5),
      (lit ''bir'' @ [0x17E] @ lit ''elis'', 6), (lit ''birzelis'', 6),
      (lit ''liepa'', 7),
      (lit ''rugpj'' @ [0x16B] @ lit ''tis'', 8), (lit ''rugpjutis'', 8),
      (lit ''rugs'' @ [0x117] @ lit ''jis'', 9), (lit ''rugsejis'', 9),
      (lit ''spalis'', 10), (lit ''lapkritis'', 11), (lit ''gruodis'', 12)]"

definition objectPrototypeKeys :: "jsstring list" where
  "objectPrototypeKeys =
     [lit ''constructor'', lit ''__defineGetter__'', lit ''__defineSetter__'',
      lit ''hasOwnProperty'', lit ''__lookupGetter__'', lit ''__lookupSetter__'',
      lit ''isPrototypeOf'', lit ''propertyIsEnumerable'', lit ''toString'', lit ''valueOf'',
      lit ''__proto__'', lit ''toLocaleString'']"

datatype month_val = MonthNum nat | Inherited jsstring

definition LT_MONTH_TO_NUM :: "jsstring \<Rightarrow> month_val option" where
  "LT_MONTH_TO_NUM k =
     (case map_of monthTable k of
        Some n \<Rightarrow> Some (MonthNum n)
      | None \<Rightarrow> if k \<in> set objectPrototypeKeys then Some (Inherited k) else None)"

record parsed =
  year :: rat
  month :: month_val

definition parseLtFixVersion :: "jsstring \<Rightarrow> parsed option" where
  "parseLtFixVersion name =
     (case splitWs (trim name) of
        p0 # p1 # rest \<Rightarrow>
          (case Number p0 of
             Fin y \<Rightarrow>
               if y < 2000 \<or> 2100 < y then None
               else
                 (let monthNameRaw = toLowerCase (join (lit '' '') (p1 # rest));
                      m = (case LT_MONTH_TO_NUM monthNameRaw of
                             Some v \<Rightarrow> Some v
                           | None \<Rightarrow> LT_MONTH_TO_NUM (toLowerCase p1))
                  in case m of
                       None \<Rightarrow> None
                     | Some (MonthNum n) \<Rightarrow>
                         if n = 0 then None else Some \<lparr>year = y, month = MonthNum n\<rparr>
                     | Some (Inherited k) \<Rightarrow> Some \<lparr>year = y, month = Inherited k\<rparr>)
           | _ \<Rightarrow> None)
      | _ \<Rightarrow> None)"

text \<open>
  \<open>monthKey\<close> (lines 39 to 41). With a number for the month the sum is a Number; with an
  inherited function or object it is a string, the number's digits followed by the
  text of the function or object, and that string is no numeric literal.
\<close>

datatype key = KeyNum jsnum | KeyString

definition monthKey :: "parsed \<Rightarrow> key" where
  "monthKey p =
     (case month p of
        MonthNum n \<Rightarrow> KeyNum (addNum (mulNum (Fin (year p)) (Fin 100)) (Fin (of_nat n)))
      | Inherited k \<Rightarrow> KeyString)"

text \<open>The vocabulary of the claim about the parser.\<close>

definition monthCandidates :: "jsstring \<Rightarrow> jsstring list" where
  "monthCandidates name =
     (case splitWs (trim name) of
        p0 # p1 # rest \<Rightarrow> [toLowerCase (join (lit '' '') (p1 # rest)), toLowerCase p1]
      | _ \<Rightarrow> [])"

definition yearInRange :: "jsnum \<Rightarrow> bool" where
  "yearInRange v = (case v of Fin y \<Rightarrow> 2000 \<le> y \<and> y \<le> 2100 | _ \<Rightarrow> False)"

section \<open>The upstream service and the responses of the routes\<close>

text \<open>
  \<open>process.env\<close> is a lookup of strings. \<open>mustGetEnv\<close> (lines 43 to 47) throws when the
  variable is missing or empty; the thrown message is the left value.
\<close>

type_synonym env = "jsstring \<Rightarrow> jsstring option"

definition mustGetEnv :: "env \<Rightarrow> jsstring \<Rightarrow> jsstring + jsstring" where
  "mustGetEnv e name =
     (case e name of
        None \<Rightarrow> Inl (lit ''Missing env var: '' @ name)
      | Some v \<Rightarrow> if v = [] then Inl (lit ''Missing env var: '' @ name) else Inr v)"

text \<open>
  What \<open>await fetch(...)\<close> gives: the call throws (a network failure, a URL that does not
  parse), with the message of the error, or it returns a response. Of a response the
  routes read the status, \<open>r.ok\<close> (a status from 200 to 299), and the body, as text by
  \<open>r.text()\<close> or as parsed JSON by \<open>r.json()\<close>; either read can throw, and then the left
  value is the message of the error.
\<close>

datatype 'a fetched =
    Rejects jsstring
  | Reply (reply_status: nat) (reply_text: "jsstring + jsstring") (reply_json: "jsstring + 'a")

definition ok :: "nat \<Rightarrow> bool" where
  "ok st \<longleftrightarrow> 200 \<le> st \<and> st \<le> 299"

text \<open>
  What a route returns: a JSON body with status 200, or the error envelope with its HTTP
  status, its \<open>error\<close> text, the upstream status when the envelope has one, and its
  \<open>details\<close>.
\<close>

record envelope =
  http_status :: nat
  error_text :: jsstring
  upstream_status :: "nat option"
  details :: jsstring

datatype 'a response = Json 'a | Failed envelope

definition jiraRequestFailed :: "nat \<Rightarrow> jsstring \<Rightarrow> envelope" where
  "jiraRequestFailed st body =
     \<lparr>http_status = 502, error_text = lit ''Jira request failed'',
      upstream_status = Some st, details = body\<rparr>"

definition serverError :: "jsstring \<Rightarrow> envelope" where
  "serverError msg =
     \<lparr>http_status = 500, error_text = lit ''Server error'',
      upstream_status = None, details = msg\<rparr>"

section \<open>The issues route (issues/route.ts, GET)\<close>

text \<open>
  A page of the search, and a record of it, with the fields the route reads; \<open>None\<close> is
  a field that is absent or null. A record without \<open>fields\<close> has no summary and no fix
  versions; a null entry of \<open>fixVersions\<close> is an entry with no name.
\<close>

record fixVersionRaw =
  fv_name :: "jsstring option"
  fv_released :: "bool option"

record rawIssue =
  raw_key :: jsstring
  raw_summary :: "jsstring option"
  raw_fixVersions :: "fixVersionRaw list"

record page =
  page_issues :: "rawIssue list option"
  page_nextPageToken :: "jsstring option"
  page_isLast :: "bool option"

text \<open>
  The loop of lines 64 to 104. The upstream service is a function of the number of the
  request, counted from 0, and of the cursor the request carries. \<open>safety\<close> counts the
  requests made so far, so the first component of the result is the number of requests
  the loop has made when it ends. The second is the thrown or returned error, or the
  accumulated records.
\<close>

function fetchPages ::
  "(nat \<Rightarrow> jsstring option \<Rightarrow> page fetched) \<Rightarrow> nat \<Rightarrow> jsstring option \<Rightarrow> rawIssue list
     \<Rightarrow> nat \<times> (envelope + rawIssue list)" where
  "fetchPages server safety nextPageToken allIssuesRaw =
     (if safety < 30 then
        (case server safety (if truthy nextPageToken then nextPageToken else None) of
           Rejects msg \<Rightarrow> (safety + 1, Inl (serverError msg))
         | Reply st txt js \<Rightarrow>
             if \<not> ok st then
               (case txt of
                  Inl msg \<Rightarrow> (safety + 1, Inl (serverError msg))
                | Inr body \<Rightarrow> (safety + 1, Inl (jiraRequestFailed st body)))
             else
               (case js of
                  Inl msg \<Rightarrow> (safety + 1, Inl (serverError msg))
                | Inr data \<Rightarrow>
                    (let all = allIssuesRaw @ (case page_issues data of None \<Rightarrow> [] | Some is \<Rightarrow> is);
                         token = page_nextPageToken data;
                         isLast = (case page_isLast data of None \<Rightarrow> True | Some b \<Rightarrow> b)
                     in if isLast \<or> \<not> truthy token then (safety + 1, Inr all)
                        else fetchPages server (safety + 1) token all)))
      else (safety, Inr allIssuesRaw))"
  by pat_completeness auto

termination
  by (relation "measure (\<lambda>(server, safety, token, acc). 30 - safety)") auto

declare fetchPages.simps [simp del]

text \<open>
  The groups (lines 107 to 140). The map keeps its keys in the order of their first
  insertion, so it is the list of its values, one group for each name.
\<close>

record TrimmedIssue =
  issue_key :: jsstring
  issue_summary :: jsstring
  issue_url :: jsstring

record group =
  fixVersion :: jsstring
  released :: "bool option"
  group_issues :: "TrimmedIssue list"

definition trimIssue :: "jsstring \<Rightarrow> rawIssue \<Rightarrow> TrimmedIssue" where
  "trimIssue baseUrl raw =
     \<lparr>issue_key = raw_key raw,
      issue_summary = (case raw_summary raw of None \<Rightarrow> [] | Some s \<Rightarrow> s),
      issue_url = baseUrl @ lit ''/browse/'' @ raw_key raw\<rparr>"

definition mapGet :: "group list \<Rightarrow> jsstring \<Rightarrow> group option" where
  "mapGet groupsMap name = find (\<lambda>g. fixVersion g = name) groupsMap"

definition pushIssue :: "jsstring \<Rightarrow> TrimmedIssue \<Rightarrow> group list \<Rightarrow> group list" where
  "pushIssue name issue groupsMap =
     map (\<lambda>g. if fixVersion g = name then g\<lparr>group_issues := group_issues g @ [issue]\<rparr> else g)
       groupsMap"

text \<open>The inner loop over the fix versions of one record, with its set \<open>seen\<close>.\<close>

fun addFixVersions ::
  "TrimmedIssue \<Rightarrow> fixVersionRaw list \<Rightarrow> jsstring list \<Rightarrow> group list \<Rightarrow> group list" where
  "addFixVersions issue [] seen groupsMap = groupsMap"
| "addFixVersions issue (fv # fvs) seen groupsMap =
     (case fv_name fv of
        None \<Rightarrow> addFixVersions issue fvs seen groupsMap
      | Some name \<Rightarrow>
          if name = [] then addFixVersions issue fvs seen groupsMap
          else if name \<in> set seen then addFixVersions issue fvs seen groupsMap
          else
            (let created =
                   (if mapGet groupsMap name = None
                    then groupsMap @ [\<lparr>fixVersion = name, released = fv_released fv, group_issues = []\<rparr>]
                    else groupsMap)
             in addFixVersions issue fvs (name # seen) (pushIssue name issue created)))"

definition groupIssues :: "jsstring \<Rightarrow> rawIssue list \<Rightarrow> group list" where
  "groupIssues baseUrl allIssuesRaw =
     foldl (\<lambda>groupsMap raw. addFixVersions (trimIssue baseUrl raw) (raw_fixVersions raw) [] groupsMap)
       [] allIssuesRaw"

text \<open>
  The comparator of the sort (lines 143 to 152). \<open>localeCompare\<close> is the host's collation
  of two strings, a parameter here. The subtraction converts its operands to numbers, and
  a key that is a string converts to not-a-number.
\<close>

fun keyToNumber :: "key \<Rightarrow> jsnum" where
  "keyToNumber (KeyNum v) = v"
| "keyToNumber KeyString = NaN"

definition compareGroups :: "(jsstring \<Rightarrow> jsstring \<Rightarrow> int) \<Rightarrow> group \<Rightarrow> group \<Rightarrow> jsnum" where
  "compareGroups localeCompare a b =
     (case (parseLtFixVersion (fixVersion a), parseLtFixVersion (fixVersion b)) of
        (None, None) \<Rightarrow> Fin (of_int (localeCompare (fixVersion a) (fixVersion b)))
      | (None, Some pb) \<Rightarrow> Fin 1
      | (Some pa, None) \<Rightarrow> Fin (- 1)
      | (Some pa, Some pb) \<Rightarrow> subNum (keyToNumber (monthKey pb)) (keyToNumber (monthKey pa)))"

text \<open>
  \<open>Array.prototype.sort\<close> as the V8 engine of Node.js runs it. On an array of fewer than
  64 elements the minimal run length is the length of the array, so the engine takes the
  longest run at the start of the array that is already in order (a strictly descending
  run is reversed) and inserts each later element into the sorted part by binary search.
  A comparator result that is not-a-number counts as 0, so \<open>order < 0\<close> is all the
  procedure asks of a result. From 64 elements on the engine cuts the array into several
  runs and merges them; that procedure is not modelled: it is the parameter \<open>sortLong\<close>,
  and nothing is proved of the order of 64 groups or more.
\<close>

definition orderNegative :: "jsnum \<Rightarrow> bool" where
  "orderNegative v = (case v of Fin q \<Rightarrow> q < 0 | NegInf \<Rightarrow> True | _ \<Rightarrow> False)"

fun runLength :: "('a \<Rightarrow> 'a \<Rightarrow> jsnum) \<Rightarrow> bool \<Rightarrow> 'a \<Rightarrow> 'a list \<Rightarrow> nat" where
  "runLength cmp isDescending previousElement [] = 0"
| "runLength cmp isDescending previousElement (currentElement # rest) =
     (if orderNegative (cmp currentElement previousElement) = isDescending
      then Suc (runLength cmp isDescending currentElement rest)
      else 0)"

definition countAndMakeRun :: "('a \<Rightarrow> 'a \<Rightarrow> jsnum) \<Rightarrow> 'a list \<Rightarrow> 'a list \<times> nat" where
  "countAndMakeRun cmp workArray =
     (case workArray of
        elementHigh # elementLow # rest \<Rightarrow>
          (let isDescending = orderNegative (cmp elementLow elementHigh);
               n = 2 + runLength cmp isDescending elementLow rest
           in (if isDescending then rev (take n workArray) @ drop n workArray else workArray, n))
      | _ \<Rightarrow> (workArray, length workArray))"

function binarySearch :: "('a \<Rightarrow> 'a \<Rightarrow> jsnum) \<Rightarrow> 'a \<Rightarrow> 'a list \<Rightarrow> nat \<Rightarrow> nat \<Rightarrow> nat" where
  "binarySearch cmp pivot workArray left right =
     (if left < right then
        (let mid = left + (right - left) div 2
         in if orderNegative (cmp pivot (workArray ! mid))
            then binarySearch cmp pivot workArray left mid
            else binarySearch cmp pivot workArray (mid + 1) right)
      else left)"
  by pat_completeness auto

termination
  by (relation "measure (\<lambda>(cmp, pivot, workArray, left, right). right - left)") auto

declare binarySearch.simps [simp del]

fun binaryInsertionSort :: "('a \<Rightarrow> 'a \<Rightarrow> jsnum) \<Rightarrow> 'a list \<Rightarrow> 'a list \<Rightarrow> 'a list" where
  "binaryInsertionSort cmp done [] = done"
| "binaryInsertionSort cmp done (pivot # rest) =
     (let left = binarySearch cmp pivot done 0 (length done)
      in binaryInsertionSort cmp (take left done @ pivot # drop left done) rest)"

definition arraySort ::
  "(('a \<Rightarrow> 'a \<Rightarrow> jsnum) \<Rightarrow> 'a list \<Rightarrow> 'a list) \<Rightarrow> ('a \<Rightarrow> 'a \<Rightarrow> jsnum) \<Rightarrow> 'a list \<Rightarrow> 'a list" where
  "arraySort sortLong cmp array =
     (if length array < 2 then array
      else if length array < 64 then
        (let (workArray, n) = countAndMakeRun cmp array
         in binaryInsertionSort cmp (take n workArray) (drop n workArray))
      else sortLong cmp array)"

record issues_body =
  total :: nat
  groups :: "group list"

definition GET_issues ::
  "env \<Rightarrow> (nat \<Rightarrow> jsstring option \<Rightarrow> page fetched) \<Rightarrow> (jsstring \<Rightarrow> jsstring \<Rightarrow> int)
     \<Rightarrow> ((group \<Rightarrow> group \<Rightarrow> jsnum) \<Rightarrow> group list \<Rightarrow> group list) \<Rightarrow> issues_body response" where
  "GET_issues e server localeCompare sortLong =
     (case mustGetEnv e (lit ''JIRA_BASE_URL'') of
        Inl msg \<Rightarrow> Failed (serverError msg)
      | Inr baseUrl \<Rightarrow>
          (case mustGetEnv e (lit ''JIRA_EMAIL'') of
             Inl msg \<Rightarrow> Failed (serverError msg)
           | Inr email \<Rightarrow>
               (case mustGetEnv e (lit ''JIRA_API_TOKEN'') of
                  Inl msg \<Rightarrow> Failed (serverError msg)
                | Inr token \<Rightarrow>
                    (case snd (fetchPages server 0 None []) of
                       Inl failure \<Rightarrow> Failed failure
                     | Inr allIssuesRaw \<Rightarrow>
                         Json \<lparr>total = length allIssuesRaw,
                               groups = arraySort sortLong (compareGroups localeCompare)
                                          (groupIssues baseUrl allIssuesRaw)\<rparr>))))"

text \<open>The vocabulary of the claims about the pages.\<close>

definition envComplete :: "env \<Rightarrow> bool" where
  "envComplete e \<longleftrightarrow>
     truthy (e (lit ''JIRA_BASE_URL'')) \<and> truthy (e (lit ''JIRA_EMAIL''))
     \<and> truthy (e (lit ''JIRA_API_TOKEN''))"

definition continues :: "page \<Rightarrow> bool" where
  "continues p \<longleftrightarrow> page_isLast p = Some False \<and> truthy (page_nextPageToken p)"

definition recordsOf :: "page \<Rightarrow> rawIssue list" where
  "recordsOf p = (case page_issues p of None \<Rightarrow> [] | Some is \<Rightarrow> is)"

text \<open>The cursor that request \<open>i\<close> carries when the pages before it were \<open>pages\<close>.\<close>

definition cursorAt :: "(nat \<Rightarrow> page) \<Rightarrow> nat \<Rightarrow> jsstring option" where
  "cursorAt pages i =
     (if i = 0 then None
      else if truthy (page_nextPageToken (pages (i - 1))) then page_nextPageToken (pages (i - 1))
      else None)"

text \<open>Request \<open>i\<close> is answered with a success status and the page \<open>pages i\<close>.\<close>

definition served :: "(nat \<Rightarrow> jsstring option \<Rightarrow> page fetched) \<Rightarrow> (nat \<Rightarrow> page) \<Rightarrow> nat \<Rightarrow> bool" where
  "served server pages i \<longleftrightarrow>
     (\<exists>st body. ok st \<and> server i (cursorAt pages i) = Reply st body (Inr (pages i)))"

section \<open>The issue route (issue/[key]/route.ts, GET)\<close>

text \<open>
  A JSON value the route passes on or defaults: absent (\<open>undefined\<close>, which a JSON
  response leaves out), \<open>null\<close>, or a value. \<open>x ?? null\<close> is \<open>orNull\<close>, and \<open>x?.name\<close>
  reads the name of an object that is there.
\<close>

datatype 'a js = Undefined | Null | Val 'a

fun orNull :: "'a js \<Rightarrow> 'a js" where
  "orNull (Val v) = Val v"
| "orNull _ = Null"

fun orElse :: "'a js \<Rightarrow> 'a \<Rightarrow> 'a" where
  "orElse (Val v) d = v"
| "orElse _ d = d"

fun chain :: "'a js js \<Rightarrow> 'a js" where
  "chain (Val inner) = inner"
| "chain _ = Undefined"

fun fromOption :: "'a option \<Rightarrow> 'a js" where
  "fromOption None = Null"
| "fromOption (Some v) = Val v"

text \<open>A value in a template literal.\<close>

fun templateString :: "jsstring js \<Rightarrow> jsstring" where
  "templateString Undefined = lit ''undefined''"
| "templateString Null = lit ''null''"
| "templateString (Val s) = s"

text \<open>
  The upstream issue, with the fields the route reads. An object of which the route reads
  one property only (\<open>status\<close>, \<open>assignee\<close>, \<open>priority\<close>, \<open>issuetype\<close>, the author of a
  comment, a fix version) is held as that property: the outer value says whether the
  object is there, the inner one whether the property is.
\<close>

record commentRaw =
  c_id :: "jsstring js"
  c_author :: "jsstring js js"
  c_created :: "jsstring js"
  c_body :: adf

record issueFields =
  f_summary :: "jsstring js"
  f_status :: "jsstring js js"
  f_assignee :: "jsstring js js"
  f_priority :: "jsstring js js"
  f_issuetype :: "jsstring js js"
  f_created :: "jsstring js"
  f_fixVersions :: "jsstring js list js"
  f_description :: adf
  f_comment :: "commentRaw list js js"
  f_attachment :: "attachment list js"

record issueData =
  d_key :: "jsstring js"
  d_fields :: "issueFields js"

text \<open>The empty object that stands in for missing \<open>fields\<close> (line 135).\<close>

definition noFields :: issueFields where
  "noFields =
     \<lparr>f_summary = Undefined, f_status = Undefined, f_assignee = Undefined,
      f_priority = Undefined, f_issuetype = Undefined, f_created = Undefined,
      f_fixVersions = Undefined, f_description = ANull, f_comment = Undefined,
      f_attachment = Undefined\<rparr>"

text \<open>
  The response body. In an attachment \<open>id\<close>, \<open>filename\<close> and \<open>contentUrl\<close> are passed on as
  they came, \<open>None\<close> for absent or null.
\<close>

record commentOut =
  co_id :: "jsstring js"
  co_author :: jsstring
  co_created :: "jsstring js"
  co_bodyText :: jsstring

record attachmentOut =
  ao_id :: "jsstring option"
  ao_filename :: "jsstring option"
  ao_mimeType :: "jsstring js"
  ao_size :: "nat js"
  ao_contentUrl :: "jsstring option"

record detail =
  key :: "jsstring js"
  url :: jsstring
  summary :: jsstring
  status :: "jsstring js"
  assignee :: "jsstring js"
  priority :: "jsstring js"
  issueType :: "jsstring js"
  created :: "jsstring js"
  fixVersions :: "jsstring js list"
  descriptionText :: jsstring
  comments :: "commentOut list"
  attachments :: "attachmentOut list"

text \<open>Lines 134 to 200: the body built from the parsed upstream issue.\<close>

definition assemble :: "jsstring \<Rightarrow> issueData \<Rightarrow> detail" where
  "assemble baseUrl data =
     (let f = orElse (d_fields data) noFields;
          attachmentsRaw = orElse (f_attachment f) [];
          byId = attachmentById attachmentsRaw
      in \<lparr>key = d_key data,
          url = baseUrl @ lit ''/browse/'' @ templateString (d_key data),
          summary = orElse (f_summary f) [],
          status = orNull (chain (f_status f)),
          assignee = orNull (chain (f_assignee f)),
          priority = orNull (chain (f_priority f)),
          issueType = orNull (chain (f_issuetype f)),
          created = orNull (f_created f),
          fixVersions = orElse (f_fixVersions f) [],
          descriptionText = enrichPlaceholders byId (trim (adfToPlainText (f_description f))),
          comments =
            map (\<lambda>c. \<lparr>co_id = c_id c,
                        co_author = orElse (chain (c_author c)) (lit ''Unknown''),
                        co_created = orNull (c_created c),
                        co_bodyText = enrichPlaceholders byId (trim (adfToPlainText (c_body c)))\<rparr>)
              (orElse (chain (f_comment f)) []),
          attachments =
            map (\<lambda>a. \<lparr>ao_id = att_id a, ao_filename = att_filename a,
                        ao_mimeType = fromOption (att_mimeType a),
                        ao_size = fromOption (att_size a),
                        ao_contentUrl = att_content a\<rparr>)
              attachmentsRaw\<rparr>)"

text \<open>
  The route. The upstream service is a function of the trimmed key: it stands for
  building the URL and for the request, and it rejects when either throws.
\<close>

definition GET_issue :: "env \<Rightarrow> (jsstring \<Rightarrow> issueData fetched) \<Rightarrow> jsstring \<Rightarrow> detail response" where
  "GET_issue e fetchIssue k =
     (let issueKey = trim k
      in case mustGetEnv e (lit ''JIRA_BASE_URL'') of
           Inl msg \<Rightarrow> Failed (serverError msg)
         | Inr baseUrl \<Rightarrow>
             (case mustGetEnv e (lit ''JIRA_EMAIL'') of
                Inl msg \<Rightarrow> Failed (serverError msg)
              | Inr email \<Rightarrow>
                  (case mustGetEnv e (lit ''JIRA_API_TOKEN'') of
                     Inl msg \<Rightarrow> Failed (serverError msg)
                   | Inr token \<Rightarrow>
                       (case fetchIssue issueKey of
                          Rejects msg \<Rightarrow> Failed (serverError msg)
                        | Reply st tx js \<Rightarrow>
                            if \<not> ok st then
                              (case tx of
                                 Inl msg \<Rightarrow> Failed (serverError msg)
                               | Inr body \<Rightarrow> Failed (jiraRequestFailed st body))
                            else
                              (case js of
                                 Inl msg \<Rightarrow> Failed (serverError msg)
                               | Inr data \<Rightarrow> Json (assemble baseUrl data))))))"

text \<open>What the upstream issue says of a named object: its name, when it has one.\<close>

fun upstreamName :: "jsstring js js \<Rightarrow> jsstring option" where
  "upstreamName (Val (Val n)) = Some n"
| "upstreamName _ = None"

fun upstreamValue :: "'a js \<Rightarrow> 'a option" where
  "upstreamValue (Val v) = Some v"
| "upstreamValue _ = None"

text \<open>The vocabulary of the claim about the groups.\<close>

definition namesRelease :: "rawIssue \<Rightarrow> jsstring \<Rightarrow> bool" where
  "namesRelease raw n \<longleftrightarrow> n \<noteq> [] \<and> Some n \<in> set (map fv_name (raw_fixVersions raw))"

definition membersOf :: "group list \<Rightarrow> jsstring \<Rightarrow> TrimmedIssue list option" where
  "membersOf groupsMap n = map_option group_issues (mapGet groupsMap n)"

text \<open>A complete environment and small upstream services for the examples.\<close>

definition env0 :: env where
  "env0 = [lit ''JIRA_BASE_URL'' \<mapsto> lit ''https://jira'', lit ''JIRA_EMAIL'' \<mapsto> lit ''me@x'',
           lit ''JIRA_API_TOKEN'' \<mapsto> lit ''secret'']"

definition plainIssue :: "jsstring \<Rightarrow> rawIssue" where
  "plainIssue k = \<lparr>raw_key = k, raw_summary = None, raw_fixVersions = []\<rparr>"

definition endlessPage :: page where
  "endlessPage = \<lparr>page_issues = Some [plainIssue (lit ''K-1'')],
     page_nextPageToken = Some (lit ''next''), page_isLast = Some False\<rparr>"

definition endless :: "nat \<Rightarrow> jsstring option \<Rightarrow> page fetched" where
  "endless i cursor = Reply 200 (Inr []) (Inr endlessPage)"

definition threePages :: "nat \<Rightarrow> page" where
  "threePages i =
     (if i = 0 then \<lparr>page_issues = Some [plainIssue (lit ''A''), plainIssue (lit ''B'')],
                     page_nextPageToken = Some (lit ''t1''), page_isLast = Some False\<rparr>
      else if i = 1 then \<lparr>page_issues = Some [plainIssue (lit ''C'')],
                     page_nextPageToken = Some (lit ''t2''), page_isLast = Some False\<rparr>
      else \<lparr>page_issues = Some [plainIssue (lit ''D'')],
             page_nextPageToken = None, page_isLast = Some True\<rparr>)"

definition threeServer :: "nat \<Rightarrow> jsstring option \<Rightarrow> page fetched" where
  "threeServer i cursor = Reply 200 (Inr []) (Inr (threePages i))"



definition bareIssue :: "jsstring \<Rightarrow> issueData fetched" where
  "bareIssue k =
     Reply 200 (Inr [])
       (Inr \<lparr>d_key = Val k,
             d_fields = Val (noFields\<lparr>f_priority := Val (Val (lit ''High'')),
                                      f_status := Val Undefined, f_assignee := Null\<rparr>)\<rparr>)"

definition sausis2023 :: fixVersionRaw where
  "sausis2023 = \<lparr>fv_name = Some (lit ''2023 sausis''), fv_released = None\<rparr>"

definition constructor2024 :: fixVersionRaw where
  "constructor2024 = \<lparr>fv_name = Some (lit ''2024 constructor''), fv_released = None\<rparr>"

definition sausis2024 :: fixVersionRaw where
  "sausis2024 = \<lparr>fv_name = Some (lit ''2024 sausis''), fv_released = None\<rparr>"

definition threeReleases :: "nat \<Rightarrow> jsstring option \<Rightarrow> page fetched" where
  "threeReleases i cursor =
     Reply 200 (Inr [])
       (Inr \<lparr>page_issues = Some [\<lparr>raw_key = lit ''K-1'', raw_summary = None,
                                    raw_fixVersions = [sausis2023, constructor2024, sausis2024]\<rparr>],
             page_nextPageToken = None, page_isLast = Some True\<rparr>)"

text \<open>
  A stand-in for the engine's procedure on arrays of 64 elements and more, for the
  examples, none of which has that many groups.
\<close>

definition keepOrder :: "(group \<Rightarrow> group \<Rightarrow> jsnum) \<Rightarrow> group list \<Rightarrow> group list" where
  "keepOrder cmp array = array"

definition twice :: rawIssue where
  "twice = \<lparr>raw_key = lit ''K-1'', raw_summary = Some (lit ''s''),
     raw_fixVersions = [\<lparr>fv_name = Some (lit ''2024 Sausis''), fv_released = None\<rparr>,
                        \<lparr>fv_name = Some (lit ''2024 Sausis''), fv_released = None\<rparr>]\<rparr>"

section \<open>The sort under a consistent comparator\<close>

text \<open>
  A comparator is consistent on a set when a rank into a linear order decides it:
  the result is negative exactly when the first argument has the smaller rank.
\<close>

definition ranked :: "('a \<Rightarrow> 'a \<Rightarrow> jsnum) \<Rightarrow> ('a \<Rightarrow> 'k::linorder) \<Rightarrow> 'a set \<Rightarrow> bool" where
  "ranked cmp r S \<longleftrightarrow> (\<forall>x \<in> S. \<forall>y \<in> S. orderNegative (cmp x y) \<longleftrightarrow> r x < r y)"

text \<open>The unit of the last place is positive and not larger than a finite value's magnitude.\<close>

definition ulpOf :: "rat \<Rightarrow> rat" where
  "ulpOf x = powInt 2 (max (floorLog2 \<bar>x\<bar>) (- 1022) - 52)"

text \<open>Every finite binary64 value is a multiple of the smallest positive one.\<close>

definition grid :: rat where
  "grid = 2 powi (- 1074)"

definition onGrid :: "rat \<Rightarrow> bool" where
  "onGrid q \<longleftrightarrow> (\<exists>k::int. q = of_int k * grid)"

text \<open>
  The vocabulary of the order of the groups: the numeric key of a name that parses with a
  month number, and a name whose month, when the name parses, is a number.
\<close>

definition numericKey :: "jsstring \<Rightarrow> rat option" where
  "numericKey name =
     (case parseLtFixVersion name of
        None \<Rightarrow> None
      | Some p \<Rightarrow> (case monthKey p of KeyNum (Fin q) \<Rightarrow> Some q | _ \<Rightarrow> None))"

definition plainMonth :: "jsstring \<Rightarrow> bool" where
  "plainMonth name =
     (case parseLtFixVersion name of
        None \<Rightarrow> True
      | Some p \<Rightarrow> (case month p of MonthNum n \<Rightarrow> True | Inherited k \<Rightarrow> False))"

text \<open>
  The rank that the comparator follows on such names: the names that parse first, by
  descending key, then the others by their collation key.
\<close>

definition groupRank :: "(jsstring \<Rightarrow> 'k::linorder) \<Rightarrow> group \<Rightarrow> nat \<times> rat \<times> 'k" where
  "groupRank ck g =
     (case parseLtFixVersion (fixVersion g) of
        None \<Rightarrow> (1, 0, ck (fixVersion g))
      | Some p \<Rightarrow> (0, - (case numericKey (fixVersion g) of None \<Rightarrow> 0 | Some q \<Rightarrow> q), ck []))"

text \<open>Three groups, two of them with months of the table, for the example below.\<close>

definition plainGroup :: "jsstring \<Rightarrow> group" where
  "plainGroup n = \<lparr>fixVersion = n, released = None, group_issues = []\<rparr>"

definition threeGroups :: "group list" where
  "threeGroups = [plainGroup (lit ''zeta''), plainGroup (lit ''2023 sausis''),
     plainGroup (lit ''2024 sausis'')]"

text \<open>A collation by a key, here the length of the name.\<close>

definition byLength :: "jsstring \<Rightarrow> jsstring \<Rightarrow> int" where
  "byLength a b = int (length a) - int (length b)"

section \<open>Properties of the flattener\<close>

lemma list_all_dropWhile: "list_all P (dropWhile P xs) \<longleftrightarrow> list_all P xs"
  by (induction xs) auto

lemma trim_empty_iff: "trim s = [] \<longleftrightarrow> list_all isWhiteSpace s"
  using list_all_dropWhile [of isWhiteSpace s] by (simp add: trim_def list_all_iff)

text \<open>
  C1, as the code has it. A text node whose first mark of type link has a non-empty href:
  when the literal text is empty, whitespace-only, or equal to the href once its
  surrounding whitespace is trimmed, the flattener emits the href alone; for every other
  literal text it emits the text, unchanged, followed by the href in parentheses.
\<close>

theorem C1_link_text_node:
  assumes "find (\<lambda>m. mark_type m = Some (lit ''link'')) ms = Some m"
    and "mark_href m = Some href"
    and "href \<noteq> []"
  shows "adfToPlainText (AObject (Some (lit ''text'')) txt ms aid aurl cont) =
           (let text = (case txt of None \<Rightarrow> [] | Some t \<Rightarrow> t)
            in if text = [] \<or> list_all isWhiteSpace text \<or> trim text = href then href
               else text @ lit '' ('' @ href @ lit '')'')"
  using assms by (auto simp: textNode_def trim_empty_iff Let_def split: option.splits)

theorem C1_link_text_node_witness:
  "adfToPlainText (AObject (Some (lit ''text'')) (Some (lit ''Click here''))
      [Mark (Some (lit ''strong'')) None, Mark (Some (lit ''link'')) (Some (lit ''http://x/y''))]
      None None ANull) = lit ''Click here (http://x/y)''"
  using C1_link_text_node [of "[Mark (Some (lit ''strong'')) None,
      Mark (Some (lit ''link'')) (Some (lit ''http://x/y''))]"
      "Mark (Some (lit ''link'')) (Some (lit ''http://x/y''))" "lit ''http://x/y''"
      "Some (lit ''Click here'')" None None ANull]
  by (simp add: trim_def isWhiteSpace_def)

text \<open>
  The claim as the specification words it compares the literal text itself with the href.
  The text \<open>http://x/y\<close> followed by a space is not empty, not whitespace-only and not
  equal to the href \<open>http://x/y\<close>, and the flattener still emits the href alone.
\<close>

theorem C1_exact_equality_counterexample:
  "lit ''http://x/y '' \<noteq> []
   \<and> \<not> list_all isWhiteSpace (lit ''http://x/y '')
   \<and> lit ''http://x/y '' \<noteq> lit ''http://x/y''
   \<and> adfToPlainText (AObject (Some (lit ''text'')) (Some (lit ''http://x/y ''))
         [Mark (Some (lit ''link'')) (Some (lit ''http://x/y''))] None None ANull)
       = lit ''http://x/y''
   \<and> adfToPlainText (AObject (Some (lit ''text'')) (Some (lit ''http://x/y ''))
         [Mark (Some (lit ''link'')) (Some (lit ''http://x/y''))] None None ANull)
       \<noteq> lit ''http://x/y '' @ lit '' ('' @ lit ''http://x/y'' @ lit '')''"
  by (simp add: textNode_def trim_def isWhiteSpace_def)

text \<open>
  C10. A media node whose id is absent, null or the empty string flattens to the bare
  token; one with a non-empty id flattens to the token carrying that id; so a media node
  never flattens to the token with an empty id.
\<close>

theorem C10_media_node:
  "adfToPlainText (AObject (Some (lit ''media'')) txt ms aid aurl cont) =
     (case aid of
        None \<Rightarrow> lit ''[ATTACHMENT]''
      | Some i \<Rightarrow> if i = [] then lit ''[ATTACHMENT]'' else lit ''[ATTACHMENT_ID:'' @ i @ lit '']'')
   \<and> adfToPlainText (AObject (Some (lit ''media'')) txt ms aid aurl cont)
       \<noteq> lit ''[ATTACHMENT_ID:]''"
  by (cases aid) (auto simp: mediaNode_def)

theorem C10_media_node_witness:
  "adfToPlainText (AObject (Some (lit ''media'')) None [] (Some []) None ANull) = lit ''[ATTACHMENT]''
   \<and> adfToPlainText (AObject (Some (lit ''media'')) None [] (Some (lit ''10001'')) None ANull)
       = lit ''[ATTACHMENT_ID:10001]''"
  using C10_media_node [of None "[]" "Some []" None ANull]
    C10_media_node [of None "[]" "Some (lit ''10001'')" None ANull]
  by simp

section \<open>Properties of the placeholder resolution\<close>

lemma bracketMatcher_Nil: "bracketMatcher m \<Longrightarrow> m [] = None"
  by (cases "m []") (auto simp: bracketMatcher_def)

lemma replaceGlobal_Nil: "bracketMatcher m \<Longrightarrow> replaceGlobal m [] = []"
  by (simp add: bracketMatcher_Nil)

lemma replaceGlobal_no_match:
  "m (c # cs) = None \<Longrightarrow> replaceGlobal m (c # cs) = c # replaceGlobal m cs"
  by simp

lemma replaceGlobal_match:
  "m (c # cs) = Some (r, n) \<Longrightarrow> 0 < n \<Longrightarrow>
     replaceGlobal m (c # cs) = r @ replaceGlobal m (drop n (c # cs))"
  by simp

lemma bracketMatcher_other:
  "bracketMatcher m \<Longrightarrow> c \<noteq> 0x5B \<Longrightarrow> m (c # cs) = None"
  by (cases "m (c # cs)") (auto simp: bracketMatcher_def)

lemma replaceGlobal_copy:
  "bracketMatcher m \<Longrightarrow> 0x5B \<notin> set p \<Longrightarrow> replaceGlobal m (p @ s) = p @ replaceGlobal m s"
  by (induction p) (auto simp: bracketMatcher_other)

lemma replaceGlobal_head:
  assumes "bracketMatcher m"
  shows "replaceGlobal m (c # cs) = c # replaceGlobal m cs
         \<or> (\<exists>r' s'. replaceGlobal m (c # cs) = 0x5B # r' \<and> c = 0x5B \<and> m (c # cs) \<noteq> None)"
proof (cases "m (c # cs)")
  case None
  then show ?thesis by simp
next
  case (Some a)
  obtain r n where a: "a = (r, n)" by (cases a)
  with Some assms have "0 < n" "\<exists>r'. r = 0x5B # r'" "c = 0x5B"
    by (auto simp: bracketMatcher_def)
  with Some a show ?thesis by auto
qed

lemma prefix_reflect:
  assumes bm: "bracketMatcher m"
  shows "0x5B \<notin> set q \<Longrightarrow> prefix q (replaceGlobal m s) \<Longrightarrow>
         prefix q s \<and> replaceGlobal m s = q @ replaceGlobal m (drop (length q) s)"
proof (induction q arbitrary: s)
  case Nil
  then show ?case by simp
next
  case (Cons x q)
  show ?case
  proof (cases s)
    case Nil
    with Cons.prems show ?thesis by (simp add: bracketMatcher_Nil [OF bm])
  next
    case (Cons c cs)
    from Cons.prems have x: "x \<noteq> 0x5B" by auto
    from replaceGlobal_head [OF bm, of c cs] Cons.prems(2) x Cons
    have eq: "replaceGlobal m (c # cs) = c # replaceGlobal m cs" 
      by auto
    with Cons.prems(2) Cons have "x = c" "prefix q (replaceGlobal m cs)" by auto
    moreover from Cons.prems(1) have "0x5B \<notin> set q" by simp
    ultimately have "prefix q cs \<and> replaceGlobal m cs = q @ replaceGlobal m (drop (length q) cs)"
      using Cons.IH by blast
    with eq \<open>x = c\<close> Cons show ?thesis by simp
  qed
qed

lemma closing_reflect:
  "bracketMatcher m \<Longrightarrow> 0x5D \<in> set (replaceGlobal m s) \<Longrightarrow> 0x5D \<in> set s"
proof (induction m s rule: replaceGlobal.induct)
  case (1 m)
  then show ?case by (simp add: bracketMatcher_Nil)
next
  case (2 m c cs)
  show ?case
  proof (cases "m (c # cs)")
    case None
    with 2 show ?thesis by auto
  next
    case (Some a)
    obtain r n where a: "a = (r, n)" by (cases a)
    with Some 2(4) have "0x5D \<in> set (take n (c # cs))" by (simp add: bracketMatcher_def)
    then show ?thesis by (meson in_set_takeD)
  qed
qed

text \<open>
  A replacement pass leaves no occurrence of a token \<open>P\<close> when the matcher matches
  wherever the input has one, no occurrence starts inside a replacement, and an
  occurrence at a copied code unit was one in the input already.
\<close>

lemma no_token_after_replace:
  assumes refl: "\<And>c cs. m (c # cs) = None \<Longrightarrow> P (c # replaceGlobal m cs) \<Longrightarrow> P (c # cs)"
    and inside: "\<And>s r n k rest. m s = Some (r, n) \<Longrightarrow> k < length r \<Longrightarrow> \<not> P (drop k r @ rest)"
    and pos: "\<And>s r n. m s = Some (r, n) \<Longrightarrow> 0 < n"
    and nil: "\<not> P []" "m [] = None"
  shows "(\<And>u. suffix u s \<Longrightarrow> P u \<Longrightarrow> m u \<noteq> None) \<Longrightarrow> suffix v (replaceGlobal m s) \<Longrightarrow> \<not> P v"
proof (induction "length s" arbitrary: s v rule: less_induct)
  case less
  show ?case
  proof (cases s)
    case Nil
    with less.prems nil show ?thesis by simp
  next
    case (Cons c cs)
    show ?thesis
    proof (cases "m (c # cs)")
      case None
      then have res: "replaceGlobal m s = c # replaceGlobal m cs" using Cons by simp
      have ih: "\<And>w. suffix w (replaceGlobal m cs) \<Longrightarrow> \<not> P w"
      proof (rule less.hyps [of cs])
        show "length cs < length s" using Cons by simp
        fix u assume "suffix u cs" "P u"
        then show "m u \<noteq> None" using less.prems(1) [of u] Cons by (simp add: suffix_Cons)
      qed
      from less.prems(2) res have "v = c # replaceGlobal m cs \<or> suffix v (replaceGlobal m cs)"
        by (simp add: suffix_Cons)
      then show ?thesis
      proof
        assume v: "v = c # replaceGlobal m cs"
        show ?thesis
        proof
          assume "P v"
          with v refl [OF None] have "P (c # cs)" by simp
          with less.prems(1) [of s] Cons None show False by simp
        qed
      next
        assume "suffix v (replaceGlobal m cs)"
        then show ?thesis by (rule ih)
      qed
    next
      case (Some a)
      obtain r n where a: "a = (r, n)" by (cases a)
      with Some have mr: "m (c # cs) = Some (r, n)" by simp
      from pos [OF mr] have n: "0 < n" .
      with mr Cons have res: "replaceGlobal m s = r @ replaceGlobal m (drop n s)" by simp
      have ih: "\<And>w. suffix w (replaceGlobal m (drop n s)) \<Longrightarrow> \<not> P w"
      proof (rule less.hyps [of "drop n s"])
        show "length (drop n s) < length s" using Cons n by simp
        fix u assume "suffix u (drop n s)" "P u"
        then show "m u \<noteq> None" using less.prems(1) [of u] suffix_drop suffix_order.trans by blast
      qed
      from less.prems(2) res have "suffix v (r @ replaceGlobal m (drop n s))" by simp
      then have "suffix v (replaceGlobal m (drop n s))
                 \<or> (\<exists>k < length r. v = drop k r @ replaceGlobal m (drop n s))"
        unfolding suffix_append
        by (metis append_eq_conv_conj length_drop diff_less length_greater_0_conv
            suffix_def drop_eq_Nil2 leI append_Nil suffix_order.refl drop_all)
      then show ?thesis
        using ih inside [OF mr] by auto
    qed
  qed
qed

lemma labelShape_inside:
  assumes "labelShape r" "k < length r"
  shows "\<not> prefix (lit ''[AT'') (drop k r @ rest)"
proof (cases k)
  case 0
  with assms show ?thesis by (auto simp: labelShape_def)
next
  case (Suc k')
  from assms(1) obtain r' where r: "r = 0x5B # r'" "0x5B \<notin> set r'"
    by (auto simp: labelShape_def)
  with assms(2) Suc have "k' < length r'" by simp
  then obtain x xs where d: "drop k' r' = x # xs"
    by (metis Cons_nth_drop_Suc)
  then have "x \<in> set r'" by (metis in_set_dropD list.set_intros(1))
  with r have "x \<noteq> 0x5B" by auto
  with d r Suc show ?thesis by simp
qed

lemma takeWhile_short: "length (takeWhile P xs) < length xs \<longleftrightarrow> (\<exists>x \<in> set xs. \<not> P x)"
  by (induction xs) auto

lemma idTokenAt_iff:
  "idTokenAt u \<longleftrightarrow> (\<exists>d ds. u = lit ''[ATTACHMENT_ID:'' @ d # ds \<and> d \<noteq> 0x5D \<and> 0x5D \<in> set ds)"
proof
  assume "idTokenAt u"
  then have p: "prefix (lit ''[ATTACHMENT_ID:'') u"
    and t: "takeWhile (\<lambda>c. c \<noteq> 0x5D) (drop 15 u) \<noteq> []"
    and l: "length (takeWhile (\<lambda>c. c \<noteq> 0x5D) (drop 15 u)) < length (drop 15 u)"
    by (auto simp: idTokenAt_def matchAttachmentId_def Let_def split: if_splits)
  from p obtain t' where u: "u = lit ''[ATTACHMENT_ID:'' @ t'" by (auto simp: prefix_def)
  then have dr: "drop 15 u = t'" by simp
  from t dr obtain d ds where t': "t' = d # ds" "d \<noteq> 0x5D"
    by (cases t') (auto split: if_splits)
  from l dr have "\<exists>x \<in> set t'. \<not> x \<noteq> 0x5D" by (simp add: takeWhile_short)
  with t' have "0x5D \<in> set ds" by auto
  with u t' show "\<exists>d ds. u = lit ''[ATTACHMENT_ID:'' @ d # ds \<and> d \<noteq> 0x5D \<and> 0x5D \<in> set ds"
    by blast
next
  assume "\<exists>d ds. u = lit ''[ATTACHMENT_ID:'' @ d # ds \<and> d \<noteq> 0x5D \<and> 0x5D \<in> set ds"
  then obtain d ds where u: "u = lit ''[ATTACHMENT_ID:'' @ d # ds" and d: "d \<noteq> 0x5D"
    and ds: "0x5D \<in> set ds" by blast
  from u have dr: "drop 15 u = d # ds" by simp
  have "length (takeWhile (\<lambda>c. c \<noteq> 0x5D) (d # ds)) < length (d # ds)"
    unfolding takeWhile_short using ds by auto
  with u d dr show "idTokenAt u"
    by (simp add: idTokenAt_def matchAttachmentId_def Let_def)
qed

lemma idTokenAt_prefix_AT: "idTokenAt u \<Longrightarrow> prefix (lit ''[AT'') u"
  by (auto simp: idTokenAt_iff)

lemma idTokenAt_reflect:
  assumes bm: "bracketMatcher m" and "idTokenAt (c # replaceGlobal m cs)"
  shows "idTokenAt (c # cs)"
proof -
  from assms(2) obtain d ds where R: "c # replaceGlobal m cs = lit ''[ATTACHMENT_ID:'' @ d # ds"
    and d: "d \<noteq> 0x5D" and ds: "0x5D \<in> set ds"
    unfolding idTokenAt_iff by blast
  from R have c: "c = 0x5B" and R': "replaceGlobal m cs = lit ''ATTACHMENT_ID:'' @ d # ds" by simp_all
  have "0x5B \<notin> set (lit ''ATTACHMENT_ID:'')" by simp
  moreover from R' have "prefix (lit ''ATTACHMENT_ID:'') (replaceGlobal m cs)" by simp
  ultimately have pre: "prefix (lit ''ATTACHMENT_ID:'') cs"
    and eq: "replaceGlobal m cs = lit ''ATTACHMENT_ID:'' @ replaceGlobal m (drop (length (lit ''ATTACHMENT_ID:'')) cs)"
    using prefix_reflect [OF bm] by blast+
  define cs2 where "cs2 = drop (length (lit ''ATTACHMENT_ID:'')) cs"
  from pre have cs: "cs = lit ''ATTACHMENT_ID:'' @ cs2"
    unfolding cs2_def by (metis append_eq_conv_conj prefix_def)
  from eq R' have r2: "replaceGlobal m cs2 = d # ds" unfolding cs2_def by simp
  then have "0x5D \<in> set (replaceGlobal m cs2)" using ds by simp
  then have in2: "0x5D \<in> set cs2" by (rule closing_reflect [OF bm])
  then obtain e es where cs2: "cs2 = e # es" by (cases cs2) auto
  have "e \<noteq> 0x5D"
  proof
    assume e: "e = 0x5D"
    then have "m (e # es) = None" using bracketMatcher_other [OF bm, of e es] by simp
    with r2 cs2 e d show False by simp
  qed
  with in2 cs2 have "0x5D \<in> set es" by auto
  with cs cs2 c \<open>e \<noteq> 0x5D\<close> show ?thesis unfolding idTokenAt_iff by auto
qed

lemma bareAt_reflect:
  assumes bm: "bracketMatcher m" and "prefix (lit ''[ATTACHMENT]'') (c # replaceGlobal m cs)"
  shows "prefix (lit ''[ATTACHMENT]'') (c # cs)"
proof -
  from assms(2) have c: "c = 0x5B" and p: "prefix (lit ''ATTACHMENT]'') (replaceGlobal m cs)"
    by simp_all
  have "0x5B \<notin> set (lit ''ATTACHMENT]'')" by simp
  with p have "prefix (lit ''ATTACHMENT]'') cs" using prefix_reflect [OF bm] by blast
  with c show ?thesis by simp
qed

lemma enrichPlaceholders_eq:
  "enrichPlaceholders byId s =
     replaceGlobal bareMatcher (replaceGlobal (idMatcher byId) s)"
  by (simp add: enrichPlaceholders_def bareMatcher_def idMatcher_def matchLiteral_def
      matchAttachmentId_def)

lemma bareMatcher_bracket: "bracketMatcher bareMatcher"
  by (auto simp: bracketMatcher_def bareMatcher_def matchLiteral_def prefix_def split: if_splits)

lemma bareMatcher_label: "bareMatcher s = Some (r, n) \<Longrightarrow> labelShape r"
  by (auto simp: bareMatcher_def matchLiteral_def labelShape_def split: if_splits)

lemma matchAttachmentId_Some:
  assumes "matchAttachmentId f s = Some (r, n)"
  shows "\<exists>i ds. s = lit ''[ATTACHMENT_ID:'' @ i @ 0x5D # ds \<and> i \<noteq> [] \<and> 0x5D \<notin> set i
           \<and> r = f i \<and> n = 15 + length i + 1"
proof -
  let ?i = "takeWhile (\<lambda>c. c \<noteq> 0x5D) (drop 15 s)"
  from assms have p: "prefix (lit ''[ATTACHMENT_ID:'') s" and i: "?i \<noteq> []"
    and l: "length ?i < length (drop 15 s)" and r: "r = f ?i" and n: "n = 15 + length ?i + 1"
    by (auto simp: matchAttachmentId_def Let_def split: if_splits)
  from p obtain t where s: "s = lit ''[ATTACHMENT_ID:'' @ t" by (auto simp: prefix_def)
  then have dr: "drop 15 s = t" by simp
  from l dr have "dropWhile (\<lambda>c. c \<noteq> 0x5D) t \<noteq> []"
    by (metis append_Nil2 less_irrefl takeWhile_dropWhile_id)
  then obtain ds where dw: "dropWhile (\<lambda>c. c \<noteq> 0x5D) t = 0x5D # ds"
    by (metis (mono_tags, lifting) hd_dropWhile list.exhaust_sel)
  have "t = takeWhile (\<lambda>c. c \<noteq> 0x5D) t @ dropWhile (\<lambda>c. c \<noteq> 0x5D) t" by simp
  with dw have t: "t = takeWhile (\<lambda>c. c \<noteq> 0x5D) t @ 0x5D # ds" by simp
  have "0x5D \<notin> set (takeWhile (\<lambda>c. c \<noteq> 0x5D) t)" by (auto dest: set_takeWhileD)
  with s t dr i r n show ?thesis by metis
qed

lemma matchAttachmentId_bracket:
  assumes "\<And>i. \<exists>r'. f i = 0x5B # r'"
  shows "bracketMatcher (matchAttachmentId f)"
  unfolding bracketMatcher_def
proof (intro allI impI)
  fix s r n assume "matchAttachmentId f s = Some (r, n)"
  from matchAttachmentId_Some [OF this] obtain i ds where
    s: "s = lit ''[ATTACHMENT_ID:'' @ i @ 0x5D # ds" and r: "r = f i" and n: "n = 15 + length i + 1"
    by blast
  define xs where "xs = lit ''[ATTACHMENT_ID:'' @ i @ [0x5D]"
  have "s = xs @ ds" "n = length xs" "0x5D \<in> set xs" using s n by (simp_all add: xs_def)
  then have "0x5D \<in> set (take n s)" by simp
  with s r n assms [of i] show "(\<exists>t. s = 0x5B # t) \<and> 0 < n \<and> 0x5D \<in> set (take n s) \<and> (\<exists>r'. r = 0x5B # r')"
    by simp
qed

lemma labelFor_bracket: "\<exists>r'. labelFor byId i = 0x5B # r'"
  by (auto simp: labelFor_def placeholderLabelForAttachment_def Let_def split: option.splits)

lemma idMatcher_bracket: "bracketMatcher (idMatcher byId)"
  unfolding idMatcher_def by (rule matchAttachmentId_bracket) (rule labelFor_bracket)

lemma bracketMatcher_pos: "bracketMatcher m \<Longrightarrow> m s = Some (r, n) \<Longrightarrow> 0 < n"
  by (auto simp: bracketMatcher_def)

text \<open>No bare token is left.\<close>

lemma no_bare_after_bareMatcher:
  assumes "suffix v (replaceGlobal bareMatcher s)"
  shows "\<not> prefix (lit ''[ATTACHMENT]'') v"
proof (rule no_token_after_replace [where m = bareMatcher and s = s and v = v
      and P = "prefix (lit ''[ATTACHMENT]'')"])
  show "\<And>c cs. prefix (lit ''[ATTACHMENT]'') (c # replaceGlobal bareMatcher cs)
      \<Longrightarrow> prefix (lit ''[ATTACHMENT]'') (c # cs)"
    by (rule bareAt_reflect [OF bareMatcher_bracket])
  show "\<And>s r n k rest. bareMatcher s = Some (r, n) \<Longrightarrow> k < length r
      \<Longrightarrow> \<not> prefix (lit ''[ATTACHMENT]'') (drop k r @ rest)"
  proof
    fix s r n k rest
    assume "bareMatcher s = Some (r, n)" "k < length r"
      and p: "prefix (lit ''[ATTACHMENT]'') (drop k r @ rest)"
    then have "\<not> prefix (lit ''[AT'') (drop k r @ rest)"
      using labelShape_inside bareMatcher_label by blast
    moreover from p have "prefix (lit ''[AT'') (drop k r @ rest)"
      by (auto simp: prefix_def)
    ultimately show False by simp
  qed
  show "\<And>s r n. bareMatcher s = Some (r, n) \<Longrightarrow> 0 < n"
    by (rule bracketMatcher_pos [OF bareMatcher_bracket])
  show "\<not> prefix (lit ''[ATTACHMENT]'') []" by simp
  show "bareMatcher [] = None" by (simp add: bareMatcher_def matchLiteral_def)
  show "\<And>u. prefix (lit ''[ATTACHMENT]'') u \<Longrightarrow> bareMatcher u \<noteq> None"
    by (simp add: bareMatcher_def matchLiteral_def)
  show "suffix v (replaceGlobal bareMatcher s)" by (rule assms)
qed

lemma no_bare_token: "\<not> sublist (lit ''[ATTACHMENT]'') (enrichPlaceholders byId s)"
  unfolding enrichPlaceholders_eq sublist_altdef'
  using no_bare_after_bareMatcher by blast

text \<open>
  A pass whose replacements have the shape of the generic label makes no token with an id.
\<close>

lemma no_idToken_after_replace:
  assumes bm: "bracketMatcher m"
    and lab: "\<And>s r n. m s = Some (r, n) \<Longrightarrow> labelShape r"
    and cov: "\<And>u. suffix u s \<Longrightarrow> idTokenAt u \<Longrightarrow> m u \<noteq> None"
    and v: "suffix v (replaceGlobal m s)"
  shows "\<not> idTokenAt v"
proof (rule no_token_after_replace [where m = m and s = s and v = v and P = idTokenAt])
  show "\<And>c cs. idTokenAt (c # replaceGlobal m cs) \<Longrightarrow> idTokenAt (c # cs)"
    by (rule idTokenAt_reflect [OF bm])
  show "\<And>s r n k rest. m s = Some (r, n) \<Longrightarrow> k < length r \<Longrightarrow> \<not> idTokenAt (drop k r @ rest)"
    using labelShape_inside lab idTokenAt_prefix_AT by blast
  show "\<And>s r n. m s = Some (r, n) \<Longrightarrow> 0 < n"
    by (rule bracketMatcher_pos [OF bm])
  show "\<not> idTokenAt []" by (simp add: idTokenAt_iff)
  show "m [] = None" by (rule bracketMatcher_Nil [OF bm])
  show "\<And>u. suffix u s \<Longrightarrow> idTokenAt u \<Longrightarrow> m u \<noteq> None" by (rule cov)
  show "suffix v (replaceGlobal m s)" by (rule v)
qed

lemma idMatcher_covers: "idTokenAt u \<Longrightarrow> idMatcher byId u \<noteq> None"
  by (auto simp: idMatcher_def idTokenAt_def matchAttachmentId_def Let_def split: if_splits)

lemma replaceGlobal_bracket_copy:
  assumes bm: "bracketMatcher m" and "m (0x5B # q @ s) = None" "0x5B \<notin> set q"
  shows "replaceGlobal m (0x5B # q @ s) = 0x5B # q @ replaceGlobal m s"
  using assms by (simp add: replaceGlobal_copy)

text \<open>The two passes on a text that is cut exactly.\<close>

lemma replaceGlobal_skip:
  "(\<And>c cs. suffix (c # cs) s \<Longrightarrow> m (c # cs @ t) = None) \<Longrightarrow>
     replaceGlobal m (s @ t) = s @ replaceGlobal m t"
proof (induction s)
  case Nil
  then show ?case by simp
next
  case (Cons a s)
  have "m (a # s @ t) = None" by (rule Cons.prems) simp
  moreover have "replaceGlobal m (s @ t) = s @ replaceGlobal m t"
    by (rule Cons.IH) (simp add: Cons.prems suffix_Cons)
  ultimately show ?case by simp
qed

lemma noTokenIn_suffix:
  "noTokenIn s t \<Longrightarrow> suffix (c # cs) s \<Longrightarrow>
     \<not> idTokenAt (c # cs @ t) \<and> \<not> prefix (lit ''[ATTACHMENT]'') (c # cs @ t)"
  by (induction s) (auto simp: suffix_Cons)

lemma idMatcher_None: "\<not> idTokenAt u \<Longrightarrow> idMatcher byId u = None"
  by (auto simp: idMatcher_def idTokenAt_def matchAttachmentId_def Let_def split: if_splits)

lemma first_pass_plain:
  assumes "noTokenIn s t"
  shows "replaceGlobal (idMatcher byId) (s @ t) = s @ replaceGlobal (idMatcher byId) t"
proof (rule replaceGlobal_skip)
  fix c cs assume "suffix (c # cs) s"
  with assms have "\<not> idTokenAt (c # cs @ t)" using noTokenIn_suffix by blast
  then show "idMatcher byId (c # cs @ t) = None" by (rule idMatcher_None)
qed

lemma first_pass_idToken:
  assumes i: "i \<noteq> []" "0x5D \<notin> set i"
  shows "replaceGlobal (idMatcher byId) (idToken i @ s) =
         labelFor byId i @ replaceGlobal (idMatcher byId) s"
proof -
  from i have "\<And>x. x \<in> set i \<Longrightarrow> x \<noteq> 0x5D" by auto
  then have tw: "takeWhile (\<lambda>c. c \<noteq> 0x5D) (i @ 0x5D # s) = i"
    by (simp add: takeWhile_append2)
  have "idMatcher byId (idToken i @ s) = Some (labelFor byId i, length (idToken i))"
    using i tw by (simp add: idMatcher_def matchAttachmentId_def idToken_def Let_def)
  moreover obtain c cs where "idToken i @ s = c # cs" by (auto simp: idToken_def)
  moreover have "0 < length (idToken i)" by (simp add: idToken_def)
  ultimately have "replaceGlobal (idMatcher byId) (idToken i @ s)
      = labelFor byId i @ replaceGlobal (idMatcher byId) (drop (length (idToken i)) (idToken i @ s))"
    by (metis replaceGlobal_match)
  then show ?thesis by simp
qed

lemma first_pass_bare:
  "replaceGlobal (idMatcher byId) (lit ''[ATTACHMENT]'' @ s) =
     lit ''[ATTACHMENT]'' @ replaceGlobal (idMatcher byId) s"
proof -
  have "idMatcher byId (0x5B # lit ''ATTACHMENT]'' @ s) = None"
    by (simp add: idMatcher_def matchAttachmentId_def)
  then have "replaceGlobal (idMatcher byId) (0x5B # lit ''ATTACHMENT]'' @ s)
      = 0x5B # lit ''ATTACHMENT]'' @ replaceGlobal (idMatcher byId) s"
    by (rule replaceGlobal_bracket_copy [OF idMatcher_bracket]) simp
  then show ?thesis by simp
qed

lemma first_pass_cut:
  "exactCut ps \<Longrightarrow>
   replaceGlobal (idMatcher byId) (concat (map render ps)) = concat (map (halfway byId) ps)"
proof (induction ps)
  case Nil
  then show ?case by (simp add: bracketMatcher_Nil [OF idMatcher_bracket])
next
  case (Cons p ps)
  show ?case
  proof (cases p)
    case (Plain s)
    with Cons show ?thesis by (simp add: first_pass_plain)
  next
    case (IdToken i)
    with Cons show ?thesis by (simp add: first_pass_idToken)
  next
    case BareToken
    with Cons first_pass_bare [of byId "concat (map render ps)"] show ?thesis by simp
  qed
qed

lemma bare_within:
  assumes "v \<noteq> []" "last v = 0x5D" "prefix (lit ''[ATTACHMENT]'') (v @ rest)"
  shows "prefix (lit ''[ATTACHMENT]'') v"
proof -
  from assms(3) consider "prefix (lit ''[ATTACHMENT]'') v"
    | us where "lit ''[ATTACHMENT]'' = v @ us" "us \<noteq> []"
    unfolding prefix_append by (metis append_Nil2 prefix_order.refl)
  then show ?thesis
  proof cases
    case 1
    then show ?thesis .
  next
    case 2
    then have "butlast (lit ''[ATTACHMENT]'') = v @ butlast us"
      by (metis butlast_append)
    then have "last v \<in> set (butlast (lit ''[ATTACHMENT]''))"
      using assms(1) by (metis last_in_set set_append UnI1)
    with assms(2) show ?thesis by simp
  qed
qed

lemma labelFor_last: "labelFor byId i \<noteq> [] \<and> last (labelFor byId i) = 0x5D"
  by (auto simp: labelFor_def placeholderLabelForAttachment_def Let_def split: option.splits)

lemma second_pass_label:
  assumes "r \<noteq> []" "last r = 0x5D" "\<not> sublist (lit ''[ATTACHMENT]'') r"
  shows "replaceGlobal bareMatcher (r @ s) = r @ replaceGlobal bareMatcher s"
proof (rule replaceGlobal_skip)
  fix c cs assume sf: "suffix (c # cs) r"
  have "\<not> prefix (lit ''[ATTACHMENT]'') (c # cs @ s)"
  proof
    assume "prefix (lit ''[ATTACHMENT]'') (c # cs @ s)"
    moreover from sf assms(1,2) have "last (c # cs) = 0x5D"
      by (metis last_appendR list.distinct(1) suffix_def)
    ultimately have "prefix (lit ''[ATTACHMENT]'') (c # cs)"
      using bare_within [of "c # cs" s] by simp
    with sf have "sublist (lit ''[ATTACHMENT]'') r"
      unfolding sublist_altdef' by blast
    with assms(3) show False by simp
  qed
  then show "bareMatcher (c # cs @ s) = None"
    by (simp add: bareMatcher_def matchLiteral_def)
qed

lemma resolved_label: "resolved byId (IdToken i) = labelFor byId i"
  by (simp add: labelFor_def placeholderLabelForAttachment_def Let_def split: option.splits)

lemma second_pass_plain:
  assumes "noTokenIn s t"
  shows "replaceGlobal bareMatcher (s @ replaceGlobal (idMatcher byId) t)
         = s @ replaceGlobal bareMatcher (replaceGlobal (idMatcher byId) t)"
proof (rule replaceGlobal_skip)
  fix c cs assume sf: "suffix (c # cs) s"
  then have "suffix cs s" by (meson suffix_ConsD)
  have "noTokenIn cs t" using assms \<open>suffix cs s\<close>
    by (induction s) (auto simp: suffix_Cons)
  then have cp: "replaceGlobal (idMatcher byId) (cs @ t) = cs @ replaceGlobal (idMatcher byId) t"
    by (rule first_pass_plain)
  have "\<not> prefix (lit ''[ATTACHMENT]'') (c # cs @ replaceGlobal (idMatcher byId) t)"
  proof
    assume "prefix (lit ''[ATTACHMENT]'') (c # cs @ replaceGlobal (idMatcher byId) t)"
    then have "prefix (lit ''[ATTACHMENT]'') (c # replaceGlobal (idMatcher byId) (cs @ t))"
      by (simp only: cp)
    then have "prefix (lit ''[ATTACHMENT]'') (c # cs @ t)"
      by (rule bareAt_reflect [OF idMatcher_bracket])
    with noTokenIn_suffix [OF assms sf] show False by simp
  qed
  then show "bareMatcher (c # cs @ replaceGlobal (idMatcher byId) t) = None"
    by (simp add: bareMatcher_def matchLiteral_def)
qed

lemma second_pass_bare:
  "replaceGlobal bareMatcher (lit ''[ATTACHMENT]'' @ s) = lit ''[Attachment]'' @ replaceGlobal bareMatcher s"
proof -
  have "bareMatcher (lit ''[ATTACHMENT]'' @ s) = Some (lit ''[Attachment]'', 12)"
    by (simp add: bareMatcher_def matchLiteral_def)
  then show ?thesis by simp
qed

lemma second_pass_cut:
  "exactCut ps \<Longrightarrow> labelsStay byId ps \<Longrightarrow>
   replaceGlobal bareMatcher (concat (map (halfway byId) ps)) = concat (map (resolved byId) ps)"
proof (induction ps)
  case Nil
  then show ?case by (simp add: bracketMatcher_Nil [OF bareMatcher_bracket])
next
  case (Cons p ps)
  from Cons.prems have ls: "labelsStay byId ps" by (simp add: labelsStay_def)
  show ?case
  proof (cases p)
    case (Plain s)
    with Cons.prems have nt: "noTokenIn s (concat (map render ps))" and ec: "exactCut ps"
      by simp_all
    from second_pass_plain [OF nt, of byId] first_pass_cut [OF ec, of byId]
    have "replaceGlobal bareMatcher (s @ concat (map (halfway byId) ps))
        = s @ replaceGlobal bareMatcher (concat (map (halfway byId) ps))"
      by simp
    with Plain Cons.IH [OF ec ls] show ?thesis by simp
  next
    case (IdToken i)
    with Cons.prems have ec: "exactCut ps"
      and nb: "\<not> sublist (lit ''[ATTACHMENT]'') (labelFor byId i)"
      by (simp_all add: labelsStay_def)
    from second_pass_label [OF _ _ nb] labelFor_last [of byId i]
    have "replaceGlobal bareMatcher (labelFor byId i @ concat (map (halfway byId) ps))
        = labelFor byId i @ replaceGlobal bareMatcher (concat (map (halfway byId) ps))"
      by blast
    with IdToken Cons.IH [OF ec ls] resolved_label [of byId i] show ?thesis by simp
  next
    case BareToken
    with Cons.prems have ec: "exactCut ps" by simp
    from BareToken Cons.IH [OF ec ls] second_pass_bare [of "concat (map (halfway byId) ps)"]
    show ?thesis by simp
  qed
qed

lemma cut_resolved:
  "exactCut ps \<Longrightarrow> labelsStay byId ps \<Longrightarrow>
   enrichPlaceholders byId (concat (map render ps)) = concat (map (resolved byId) ps)"
  by (simp add: enrichPlaceholders_eq first_pass_cut second_pass_cut)


text \<open>No token with an id is left when no label of the lookup holds one.\<close>

lemma idTokenAt_within:
  assumes "v \<noteq> []" "last v = 0x5D" "idTokenAt (v @ rest)"
  shows "idTokenAt v"
proof -
  from assms(3) obtain d ds where eq: "v @ rest = lit ''[ATTACHMENT_ID:'' @ d # ds"
    and d: "d \<noteq> 0x5D" and ds: "0x5D \<in> set ds"
    unfolding idTokenAt_iff by blast
  define p where "p = lit ''[ATTACHMENT_ID:'' @ [d]"
  from eq have eq': "v @ rest = p @ ds" by (simp add: p_def)
  have np: "0x5D \<notin> set p" using d by (simp add: p_def)
  from assms(1,2) have lv: "0x5D \<in> set v" using last_in_set [of v] by simp
  from eq' obtain us where "v = p @ us \<and> us @ rest = ds \<or> v @ us = p \<and> rest = us @ ds"
    unfolding append_eq_append_conv2 by blast
  then show ?thesis
  proof
    assume a: "v = p @ us \<and> us @ rest = ds"
    with lv np have "0x5D \<in> set us" by auto
    moreover from a have "v = lit ''[ATTACHMENT_ID:'' @ d # us" by (simp add: p_def)
    ultimately show ?thesis using d unfolding idTokenAt_iff by blast
  next
    assume "v @ us = p \<and> rest = us @ ds"
    then have "set v \<subseteq> set p" by auto
    with lv np show ?thesis by blast
  qed
qed

lemma holdsIdToken_iff: "holdsIdToken s \<longleftrightarrow> (\<exists>v. suffix v s \<and> idTokenAt v)"
  by (auto simp: holdsIdToken_def in_set_suffixes)

lemma generic_label_free: "\<not> holdsIdToken (lit ''[Attachment]'')"
  by (simp add: holdsIdToken_def idTokenAt_def matchAttachmentId_def)

lemma labelFor_tokenFree:
  assumes "tokenFreeLabels byId"
  shows "\<not> holdsIdToken (labelFor byId i)"
proof (cases "byId i")
  case None
  then have "labelFor byId i = lit ''[Attachment]''" by (simp add: labelFor_def)
  then show ?thesis by (simp only: generic_label_free not_False_eq_True)
next
  case (Some a)
  then have "labelFor byId i = placeholderLabelForAttachment a" by (simp add: labelFor_def)
  with assms Some show ?thesis unfolding tokenFreeLabels_def by metis
qed

lemma idMatcher_inside:
  assumes tf: "tokenFreeLabels byId" and m: "idMatcher byId s = Some (r, n)" and k: "k < length r"
  shows "\<not> idTokenAt (drop k r @ rest)"
proof
  assume at: "idTokenAt (drop k r @ rest)"
  from m obtain i where r: "r = labelFor byId i"
    unfolding idMatcher_def by (auto dest!: matchAttachmentId_Some)
  from k have ne: "drop k r \<noteq> []" by simp
  then have "last (drop k r) = last r" by (simp add: last_drop k)
  with r labelFor_last [of byId i] have "last (drop k r) = 0x5D" by simp
  from idTokenAt_within [OF ne this at] have "idTokenAt (drop k r)" .
  then have "holdsIdToken r" unfolding holdsIdToken_iff using suffix_drop by blast
  with r labelFor_tokenFree [OF tf] show False by simp
qed

lemma no_idToken_first_pass:
  assumes tf: "tokenFreeLabels byId" and v: "suffix v (replaceGlobal (idMatcher byId) s)"
  shows "\<not> idTokenAt v"
proof (rule no_token_after_replace [where m = "idMatcher byId" and s = s and v = v and P = idTokenAt])
  show "\<And>c cs. idTokenAt (c # replaceGlobal (idMatcher byId) cs) \<Longrightarrow> idTokenAt (c # cs)"
    by (rule idTokenAt_reflect [OF idMatcher_bracket])
  show "\<And>s r n k rest. idMatcher byId s = Some (r, n) \<Longrightarrow> k < length r
      \<Longrightarrow> \<not> idTokenAt (drop k r @ rest)"
    by (rule idMatcher_inside [OF tf])
  show "\<And>s r n. idMatcher byId s = Some (r, n) \<Longrightarrow> 0 < n"
    by (rule bracketMatcher_pos [OF idMatcher_bracket])
  show "\<not> idTokenAt []" by (simp add: idTokenAt_iff)
  show "idMatcher byId [] = None" by (rule bracketMatcher_Nil [OF idMatcher_bracket])
  show "\<And>u. idTokenAt u \<Longrightarrow> idMatcher byId u \<noteq> None" by (rule idMatcher_covers)
  show "suffix v (replaceGlobal (idMatcher byId) s)" by (rule v)
qed

lemma no_idToken_left:
  assumes tf: "tokenFreeLabels byId"
  shows "\<not> holdsIdToken (enrichPlaceholders byId s)"
proof
  assume "holdsIdToken (enrichPlaceholders byId s)"
  then obtain v where v: "suffix v (enrichPlaceholders byId s)" and at: "idTokenAt v"
    unfolding holdsIdToken_iff by blast
  let ?s1 = "replaceGlobal (idMatcher byId) s"
  have "\<not> idTokenAt v"
  proof (rule no_idToken_after_replace [OF bareMatcher_bracket bareMatcher_label])
    show "\<And>s r n. bareMatcher s = Some (r, n) \<Longrightarrow> bareMatcher s = Some (r, n)" .
    show "\<And>u. suffix u ?s1 \<Longrightarrow> idTokenAt u \<Longrightarrow> bareMatcher u \<noteq> None"
      using no_idToken_first_pass [OF tf] by blast
    show "suffix v (replaceGlobal bareMatcher ?s1)"
      using v by (simp add: enrichPlaceholders_eq)
  qed
  with at show False by simp
qed

lemma idToken_holds:
  assumes "i \<noteq> []" "hd i \<noteq> 0x5D" "sublist (idToken i) s"
  shows "holdsIdToken s"
proof -
  from assms(3) obtain v where v: "suffix v s" and p: "prefix (idToken i) v"
    unfolding sublist_altdef' by blast
  from assms(1) obtain d ds where i: "i = d # ds" by (cases i) auto
  from p obtain rest where "v = idToken i @ rest" by (auto simp: prefix_def)
  with i have "v = lit ''[ATTACHMENT_ID:'' @ d # (ds @ 0x5D # rest)" by (simp add: idToken_def)
  moreover from assms(2) i have "d \<noteq> 0x5D" by simp
  ultimately have "idTokenAt v" unfolding idTokenAt_iff by auto
  with v show ?thesis unfolding holdsIdToken_iff by blast
qed

lemma no_id_token:
  assumes "tokenFreeLabels byId" "i \<noteq> []" "hd i \<noteq> 0x5D"
  shows "\<not> sublist (idToken i) (enrichPlaceholders byId s)"
  using assms no_idToken_left idToken_holds by blast

text \<open>Every text has an exact cut.\<close>

lemma idTokenAt_split:
  assumes "idTokenAt u"
  shows "u = idToken (takeWhile (\<lambda>x. x \<noteq> 0x5D) (drop 15 u))
             @ drop (15 + length (takeWhile (\<lambda>x. x \<noteq> 0x5D) (drop 15 u)) + 1) u
         \<and> takeWhile (\<lambda>x. x \<noteq> 0x5D) (drop 15 u) \<noteq> []"
proof -
  from assms have "matchAttachmentId (\<lambda>i. []) u \<noteq> None" by (simp add: idTokenAt_def)
  then obtain r n where "matchAttachmentId (\<lambda>i. []) u = Some (r, n)" by auto
  from matchAttachmentId_Some [OF this] obtain i ds where
    u: "u = lit ''[ATTACHMENT_ID:'' @ i @ 0x5D # ds" and i: "i \<noteq> []" "0x5D \<notin> set i"
    by blast
  from i have "\<And>x. x \<in> set i \<Longrightarrow> x \<noteq> 0x5D" by auto
  then have tw: "takeWhile (\<lambda>c. c \<noteq> 0x5D) (i @ 0x5D # ds) = i"
    by (simp add: takeWhile_append2)
  from u have "drop 15 u = i @ 0x5D # ds" by simp
  with tw have t: "takeWhile (\<lambda>x. x \<noteq> 0x5D) (drop 15 u) = i" by simp
  define xs where "xs = lit ''[ATTACHMENT_ID:'' @ i @ [0x5D]"
  have "u = xs @ ds" "length xs = 15 + length i + 1" using u by (simp_all add: xs_def)
  then have d: "drop (15 + length i + 1) u = ds" by simp
  have "u = idToken i @ ds" using u by (simp add: idToken_def)
  with i(1) show ?thesis unfolding t d by blast
qed

lemma cut_exact: "concat (map render (cut s)) = s \<and> exactCut (cut s)"
proof (induction s rule: cut.induct)
  case 1
  then show ?case by (simp add: cut.simps)
next
  case (2 c cs)
  show ?case
  proof (cases "idTokenAt (c # cs)")
    case True
    define i where "i = takeWhile (\<lambda>x. x \<noteq> 0x5D) (drop 15 (c # cs))"
    define rest where "rest = drop (15 + length i + 1) (c # cs)"
    from 2(1) [OF True refl] have ih: "concat (map render (cut rest)) = rest" "exactCut (cut rest)"
      unfolding rest_def i_def by simp_all
    have c: "cut (c # cs) = IdToken i # cut rest"
      unfolding rest_def i_def using True by (simp only: cut.simps if_True Let_def)
    have ni: "0x5D \<notin> set i" unfolding i_def by (auto dest: set_takeWhileD)
    from idTokenAt_split [OF True] have sp: "c # cs = idToken i @ rest" and ne: "i \<noteq> []"
      unfolding rest_def i_def by blast+
    have "concat (map render (cut (c # cs))) = idToken i @ rest"
      unfolding c using ih(1) by simp
    moreover have "exactCut (cut (c # cs))"
      unfolding c using ih(2) ni ne by simp
    ultimately show ?thesis by (simp only: sp)
  next
    case False
    show ?thesis
    proof (cases "prefix (lit ''[ATTACHMENT]'') (c # cs)")
      case True
      define rest where "rest = drop 12 (c # cs)"
      from 2(2) [OF False True] have ih: "concat (map render (cut rest)) = rest"
        "exactCut (cut rest)" unfolding rest_def by simp_all
      have c: "cut (c # cs) = BareToken # cut rest"
        unfolding rest_def using False True by (simp only: cut.simps if_True if_False)
      from True obtain r where r: "c # cs = lit ''[ATTACHMENT]'' @ r" by (auto simp: prefix_def)
      then have "rest = r" unfolding rest_def by simp
      with r have sp: "c # cs = lit ''[ATTACHMENT]'' @ rest" by simp
      have "concat (map render (cut (c # cs))) = lit ''[ATTACHMENT]'' @ rest"
        unfolding c using ih(1) by simp
      moreover have "exactCut (cut (c # cs))"
        unfolding c using ih(2) by simp
      ultimately show ?thesis by (simp only: sp)
    next
      case nb: False
      have c: "cut (c # cs) = Plain [c] # cut cs"
        using False nb by (simp only: cut.simps if_False)
      from 2(3) [OF False nb] have ih: "concat (map render (cut cs)) = cs" "exactCut (cut cs)"
        by simp_all
      have "noTokenIn [c] cs" using False nb by simp
      then show ?thesis unfolding c using ih by simp
    qed
  qed
qed


text \<open>
  No label holds a token with an id when no filename of the lookup holds the opening
  \<open>[ATTACHMENT_ID:\<close>.
\<close>

lemma whole_opening:
  assumes "suffix w pre" "w \<noteq> []" "pre = lit ''[Image: '' \<or> pre = lit ''[File: ''" "hd w = 0x5B"
  shows "w = pre"
proof -
  from assms(1) have "w \<in> set (suffixes pre)" by (simp add: in_set_suffixes)
  with assms(3) have "w = pre \<or> w = [] \<or> hd w \<noteq> 0x5B"
    by (elim disjE; simp; elim disjE; simp)
  with assms(2,4) show ?thesis by blast
qed

lemma opening_in_name:
  assumes sf: "suffix v (pre @ f @ [0x5D])" and p: "prefix (lit ''[ATTACHMENT_ID:'') v"
    and pre: "pre = lit ''[Image: '' \<or> pre = lit ''[File: ''"
  shows "sublist (lit ''[ATTACHMENT_ID:'') f"
proof -
  from sf consider "suffix v (f @ [0x5D])" | w where "v = w @ f @ [0x5D]" "suffix w pre" "w \<noteq> []"
    unfolding suffix_append [of v pre] by auto
  then show ?thesis
  proof cases
    case 1
    then consider "suffix v [0x5D]" | w where "v = w @ [0x5D]" "suffix w f"
      unfolding suffix_append [of v f] by auto
    then show ?thesis
    proof cases
      case 1
      then have "v = [] \<or> v = [0x5D]" by (auto simp: suffix_Cons)
      with p show ?thesis by auto
    next
      case 2
      define P where "P = lit ''[ATTACHMENT_ID:''"
      have lp: "last P \<noteq> 0x5D" by (simp add: P_def)
      from p 2(1) have "prefix P (w @ [0x5D])" by (simp add: P_def)
      then have "prefix P w \<or> (\<exists>us. P = w @ us \<and> prefix us [0x5D])"
        by (simp only: prefix_append)
      then have "prefix P w"
      proof
        assume "prefix P w"
        then show ?thesis .
      next
        assume "\<exists>us. P = w @ us \<and> prefix us [0x5D]"
        then obtain us where us: "P = w @ us" "prefix us [0x5D]" by blast
        from us(2) have "us = [] \<or> us = [0x5D]" by (cases us) auto
        with us(1) lp show ?thesis by auto
      qed
      with 2(2) show ?thesis unfolding sublist_altdef' P_def by blast
    qed
  next
    case 2
    from p 2(1,3) have "hd w = 0x5B" by (cases w) auto
    with 2(2,3) pre have "w = pre" by (rule whole_opening)
    with p 2(1) pre show ?thesis by auto
  qed
qed

lemma tokenFree_filenames:
  assumes "\<And>i a f. byId i = Some a \<Longrightarrow> att_filename a = Some f
             \<Longrightarrow> \<not> sublist (lit ''[ATTACHMENT_ID:'') f"
  shows "tokenFreeLabels byId"
  unfolding tokenFreeLabels_def
proof (intro allI impI notI)
  fix i a assume a: "byId i = Some a" and h: "holdsIdToken (placeholderLabelForAttachment a)"
  define f where "f = (case att_filename a of None \<Rightarrow> lit ''file'' | Some f \<Rightarrow> f)"
  have "placeholderLabelForAttachment a = lit ''[Image: '' @ f @ [0x5D]
      \<or> placeholderLabelForAttachment a = lit ''[File: '' @ f @ [0x5D]"
    by (simp add: placeholderLabelForAttachment_def Let_def f_def)
  then obtain pre where l: "placeholderLabelForAttachment a = pre @ f @ [0x5D]"
    and pre: "pre = lit ''[Image: '' \<or> pre = lit ''[File: ''"
    by blast
  from h obtain v where v: "suffix v (pre @ f @ [0x5D])" and at: "idTokenAt v"
    unfolding holdsIdToken_iff l by blast
  from at have "prefix (lit ''[ATTACHMENT_ID:'') v" by (auto simp: idTokenAt_iff)
  with v have s: "sublist (lit ''[ATTACHMENT_ID:'') f" using pre by (rule opening_in_name)
  show False
  proof (cases "att_filename a")
    case None
    with s show False by (simp add: f_def sublist_code)
  next
    case (Some g)
    with s assms [OF a Some] show False by (simp add: f_def)
  qed
qed

text \<open>
  C4, as the code has it. A token with an id is the opening \<open>[ATTACHMENT_ID:\<close>, an id that
  is not empty and holds no closing bracket, and the closing bracket; it is what the
  expression of the first replacement matches. After the resolution no bare token is
  left, whatever the text and the attachments. No token with an id is left when no label
  made from an attachment of the lookup holds one; said of the ids, no text
  \<open>[ATTACHMENT_ID:i]\<close> is left for an \<open>i\<close> that is not empty and does not start with the
  closing bracket. A text cut exactly into its tokens and the plain text between them
  resolves piece by piece when no label of one of its tokens holds the bare token: a token
  whose id is in the lookup becomes the image label when the mime type, lower-cased,
  starts with \<open>image/\<close> and the file label otherwise, a token whose id is not in the
  lookup and a bare token become the generic label, and plain text stays. Every text has
  an exact cut.
\<close>

theorem C4_placeholders_resolved:
  "\<not> sublist (lit ''[ATTACHMENT]'') (enrichPlaceholders byId s)
   \<and> (tokenFreeLabels byId \<longrightarrow>
        \<not> holdsIdToken (enrichPlaceholders byId s)
        \<and> (\<forall>i. i \<noteq> [] \<and> hd i \<noteq> 0x5D \<longrightarrow> \<not> sublist (idToken i) (enrichPlaceholders byId s)))
   \<and> (exactCut ps \<and> labelsStay byId ps \<longrightarrow>
        enrichPlaceholders byId (concat (map render ps)) = concat (map (resolved byId) ps))
   \<and> exactCut (cut s) \<and> concat (map render (cut s)) = s"
  using no_bare_token no_idToken_left no_id_token cut_resolved cut_exact by blast

lemma labels_png_shot: "tokenFreeLabels (attachmentById [png, shot])"
  by (auto simp: tokenFreeLabels_def attachmentById_def png_def shot_def holdsIdToken_def
      idTokenAt_def matchAttachmentId_def placeholderLabelForAttachment_def toLowerCase_def
      toLowerCaseUnit_def split: if_splits)

lemma examplePieces_exact: "exactCut examplePieces"
  by (simp add: examplePieces_def idTokenAt_def matchAttachmentId_def idToken_def)

lemma examplePieces_stay: "labelsStay (attachmentById [png, shot]) examplePieces"
  by (simp add: labelsStay_def examplePieces_def labelFor_def attachmentById_def png_def shot_def
      placeholderLabelForAttachment_def toLowerCase_def toLowerCaseUnit_def sublist_code)

theorem C4_placeholders_resolved_witness:
  "enrichPlaceholders (attachmentById [png, shot])
       (lit ''[Link: http://a] see [ATTACHMENT_ID:10001], [ATTACHMENT_ID:7], [ATTACHMENT_ID:8] and [ATTACHMENT]'')
     = lit ''[Link: http://a] see [Image: a.png], [File: shot [1].png], [Attachment] and [Attachment]''
   \<and> \<not> sublist (lit ''[ATTACHMENT]'') (enrichPlaceholders (attachmentById [png, shot]) (lit ''[ATTACHMENT]''))
   \<and> \<not> sublist (idToken (lit ''7'')) (enrichPlaceholders (attachmentById [png, shot]) (lit ''[ATTACHMENT_ID:7]''))"
proof -
  have "enrichPlaceholders (attachmentById [png, shot]) (concat (map render examplePieces))
    = concat (map (resolved (attachmentById [png, shot])) examplePieces)"
    using C4_placeholders_resolved [of "attachmentById [png, shot]" "[]" examplePieces]
      examplePieces_exact examplePieces_stay by blast
  then have 1: "enrichPlaceholders (attachmentById [png, shot])
       (lit ''[Link: http://a] see [ATTACHMENT_ID:10001], [ATTACHMENT_ID:7], [ATTACHMENT_ID:8] and [ATTACHMENT]'')
     = lit ''[Link: http://a] see [Image: a.png], [File: shot [1].png], [Attachment] and [Attachment]''"
    by (simp add: examplePieces_def idToken_def attachmentById_def png_def shot_def
        toLowerCase_def toLowerCaseUnit_def)
  have 2: "\<not> sublist (lit ''[ATTACHMENT]'') (enrichPlaceholders (attachmentById [png, shot]) (lit ''[ATTACHMENT]''))"
    using C4_placeholders_resolved [of "attachmentById [png, shot]" "lit ''[ATTACHMENT]''"] by blast
  have "(7::cu) \<noteq> 0x5D" by simp
  then have 3: "\<not> sublist (idToken (lit ''7'')) (enrichPlaceholders (attachmentById [png, shot]) (lit ''[ATTACHMENT_ID:7]''))"
    using C4_placeholders_resolved [of "attachmentById [png, shot]" "lit ''[ATTACHMENT_ID:7]''"]
      labels_png_shot
    by simp
  from 1 2 3 show ?thesis by blast
qed

text \<open>
  The claim as the specification words it fails in four ways. A filename that holds a
  token: the media node with id 1, whose attachment is named \<open>[ATTACHMENT_ID:2]\<close>,
  resolves to a detail text that still holds the token \<open>[ATTACHMENT_ID:2]\<close>. An id that
  starts with the closing bracket: the media node with id \<open>]x\<close> flattens to
  \<open>[ATTACHMENT_ID:]x]\<close>, which the expression does not match, and the text stays as it
  is. An id that holds the closing bracket: the media node with id \<open>a]b\<close>, an id of the
  lookup, resolves to the generic label followed by \<open>b]\<close>, not to the file label. A filename
  that holds the bare token: the label of the attachment named \<open>x[ATTACHMENT]\<close> is
  rewritten by the second replacement.
\<close>

lemma enrich_odd: "enrichPlaceholders (attachmentById [oddName])
       (trim (adfToPlainText (AObject (Some (lit ''media'')) None [] (Some (lit ''1'')) None ANull)))
     = lit ''[File: [ATTACHMENT_ID:2]]''"
  by (simp add: enrichPlaceholders_def idMatcher_def bareMatcher_def matchLiteral_def
      matchAttachmentId_def labelFor_def placeholderLabelForAttachment_def attachmentById_def
      oddName_def mediaNode_def trim_def isWhiteSpace_def toLowerCase_def)

lemma enrich_closing_first: "enrichPlaceholders Map.empty
       (trim (adfToPlainText (AObject (Some (lit ''media'')) None [] (Some (lit '']x'')) None ANull)))
     = lit ''[ATTACHMENT_ID:]x]''"
  by (simp add: enrichPlaceholders_def idMatcher_def bareMatcher_def matchLiteral_def
      matchAttachmentId_def mediaNode_def trim_def isWhiteSpace_def)

lemma enrich_closing_inside: "enrichPlaceholders (attachmentById [bracketId])
       (trim (adfToPlainText (AObject (Some (lit ''media'')) None [] (Some (lit ''a]b'')) None ANull)))
     = lit ''[Attachment]b]''"
  by (simp add: enrichPlaceholders_def idMatcher_def bareMatcher_def matchLiteral_def
      matchAttachmentId_def labelFor_def attachmentById_def
      bracketId_def mediaNode_def trim_def isWhiteSpace_def)

lemma enrich_bare_name: "enrichPlaceholders (attachmentById [bareName])
       (trim (adfToPlainText (AObject (Some (lit ''media'')) None [] (Some (lit ''3'')) None ANull)))
     = lit ''[File: x[Attachment]]''"
  by (simp add: enrichPlaceholders_def idMatcher_def bareMatcher_def matchLiteral_def
      matchAttachmentId_def labelFor_def placeholderLabelForAttachment_def attachmentById_def
      bareName_def mediaNode_def trim_def isWhiteSpace_def toLowerCase_def)

theorem C4_unresolved_token_counterexample:
  "sublist (lit ''[ATTACHMENT_ID:2]'')
       (enrichPlaceholders (attachmentById [oddName])
         (trim (adfToPlainText (AObject (Some (lit ''media'')) None [] (Some (lit ''1'')) None ANull))))
   \<and> sublist (lit ''[ATTACHMENT_ID:]x]'')
       (enrichPlaceholders Map.empty
         (trim (adfToPlainText (AObject (Some (lit ''media'')) None [] (Some (lit '']x'')) None ANull))))
   \<and> attachmentById [bracketId] (lit ''a]b'') = Some bracketId
   \<and> enrichPlaceholders (attachmentById [bracketId])
         (trim (adfToPlainText (AObject (Some (lit ''media'')) None [] (Some (lit ''a]b'')) None ANull)))
       = lit ''[Attachment]b]''
   \<and> attachmentById [bareName] (lit ''3'') = Some bareName
   \<and> enrichPlaceholders (attachmentById [bareName])
         (trim (adfToPlainText (AObject (Some (lit ''media'')) None [] (Some (lit ''3'')) None ANull)))
       = lit ''[File: x[Attachment]]''"
  unfolding enrich_odd enrich_closing_first enrich_closing_inside enrich_bare_name
  by (simp add: sublist_code attachmentById_def bracketId_def bareName_def)

text \<open>A token with an empty id, written in a text node, is left as it is.\<close>

lemma empty_id_stays:
  "enrichPlaceholders byId (trim (adfToPlainText (AObject (Some (lit ''text'')) (Some (lit ''[ATTACHMENT_ID:]'')) [] None None ANull)))
    = lit ''[ATTACHMENT_ID:]''"
  by (simp add: enrichPlaceholders_def idMatcher_def bareMatcher_def matchLiteral_def
      matchAttachmentId_def textNode_def trim_def isWhiteSpace_def)

section \<open>Properties of the release-name parser\<close>

lemma splitWs_not_Nil: "splitWs s \<noteq> []"
  by (induction s rule: splitWs.induct) (auto split: list.splits)

lemma monthTable_positive: "map_of monthTable k = Some n \<Longrightarrow> 0 < n"
  by (auto simp: monthTable_def split: if_splits)

lemma lookup_own:
  "k \<notin> set objectPrototypeKeys \<Longrightarrow>
     LT_MONTH_TO_NUM k = map_option MonthNum (map_of monthTable k)"
  by (simp add: LT_MONTH_TO_NUM_def split: option.splits)

text \<open>
  C2, as the code has it. For a label whose lower-cased month candidates are not names
  that every object inherits, the parser reports unparseable exactly when the label splits
  on whitespace into fewer than two tokens, or the first token does not convert to a
  finite number from 2000 to 2100, or neither the remaining tokens joined with a single
  space and lower-cased nor the second token lower-cased is a key of the month table.
  The number need not be an integer.
\<close>

theorem C2_unparseable_iff:
  assumes "\<forall>k \<in> set (monthCandidates name). k \<notin> set objectPrototypeKeys"
  shows "parseLtFixVersion name = None \<longleftrightarrow>
           length (splitWs (trim name)) < 2
           \<or> \<not> yearInRange (Number (hd (splitWs (trim name))))
           \<or> (\<forall>k \<in> set (monthCandidates name). map_of monthTable k = None)"
proof (cases "splitWs (trim name)")
  case Nil
  then show ?thesis by (simp add: splitWs_not_Nil)
next
  case (Cons p0 ps)
  show ?thesis
  proof (cases ps)
    case Nil
    with Cons show ?thesis by (simp add: parseLtFixVersion_def)
  next
    case (Cons p1 rest)
    note parts = \<open>splitWs (trim name) = p0 # ps\<close> Cons
    from assms parts have own:
      "toLowerCase (join (lit '' '') (p1 # rest)) \<notin> set objectPrototypeKeys"
      "toLowerCase p1 \<notin> set objectPrototypeKeys"
      by (simp_all add: monthCandidates_def)
    show ?thesis
    proof (cases "Number p0")
      case (Fin y)
      with parts own show ?thesis
        by (auto simp: parseLtFixVersion_def monthCandidates_def yearInRange_def lookup_own Let_def
            dest: monthTable_positive split: option.splits month_val.splits)
    qed (use parts in \<open>simp_all add: parseLtFixVersion_def yearInRange_def\<close>)
  qed
qed

lemma number_2024_5: "Number (lit ''2024.5'') = Fin (4049 / 2)"
  by (simp add: Number_def trim_def isWhiteSpace_def strNumericLiteral_def
      nonDecimalIntegerLiteral_def strUnsignedDecimalLiteral_def isDigit_def digits_def
      digitValue_def exponentPart_def Let_def round64_def floorLog2.simps powInt_def
      roundHalfEven_def)

lemma number_2024: "Number (lit ''2024'') = Fin 2024"
  by (simp add: Number_def trim_def isWhiteSpace_def strNumericLiteral_def
      nonDecimalIntegerLiteral_def strUnsignedDecimalLiteral_def isDigit_def digits_def
      digitValue_def exponentPart_def Let_def round64_def floorLog2.simps powInt_def
      roundHalfEven_def)

lemma number_2023: "Number (lit ''2023'') = Fin 2023"
  by (simp add: Number_def trim_def isWhiteSpace_def strNumericLiteral_def
      nonDecimalIntegerLiteral_def strUnsignedDecimalLiteral_def isDigit_def digits_def
      digitValue_def exponentPart_def Let_def round64_def floorLog2.simps powInt_def
      roundHalfEven_def)

lemma number_v1_2: "Number (lit ''v1.2'') = NaN"
  by (simp add: Number_def trim_def isWhiteSpace_def strNumericLiteral_def
      nonDecimalIntegerLiteral_def strUnsignedDecimalLiteral_def isDigit_def digits_def
      digitValue_def exponentPart_def Let_def)

lemma lower_Sausis: "toLowerCase (lit ''Sausis'') = lit ''sausis''"
  by (simp add: toLowerCase_def toLowerCaseUnit_def)

lemma lower_sausis: "toLowerCase (lit ''sausis'') = lit ''sausis''"
  by (simp add: toLowerCase_def toLowerCaseUnit_def)

lemma lower_constructor: "toLowerCase (lit ''constructor'') = lit ''constructor''"
  by (simp add: toLowerCase_def toLowerCaseUnit_def)

lemma split_2024_Sausis: "splitWs (trim (lit ''2024 Sausis'')) = [lit ''2024'', lit ''Sausis'']"
  by (simp add: trim_def isWhiteSpace_def)

lemma split_v1_2_sausis: "splitWs (trim (lit ''v1.2 sausis'')) = [lit ''v1.2'', lit ''sausis'']"
  by (simp add: trim_def isWhiteSpace_def)

lemma split_2024_5_sausis: "splitWs (trim (lit ''2024.5 sausis'')) = [lit ''2024.5'', lit ''sausis'']"
  by (simp add: trim_def isWhiteSpace_def)

theorem C2_unparseable_iff_witness:
  "parseLtFixVersion (lit ''v1.2 sausis'') = None \<and> parseLtFixVersion (lit ''2024 Sausis'') \<noteq> None"
proof -
  have "parseLtFixVersion (lit ''v1.2 sausis'') = None"
    using C2_unparseable_iff [of "lit ''v1.2 sausis''"] split_v1_2_sausis number_v1_2 lower_sausis
    by (simp add: monthCandidates_def objectPrototypeKeys_def yearInRange_def)
  moreover have "parseLtFixVersion (lit ''2024 Sausis'') \<noteq> None"
    using C2_unparseable_iff [of "lit ''2024 Sausis''"] split_2024_Sausis number_2024 lower_Sausis
    by (simp add: monthCandidates_def objectPrototypeKeys_def yearInRange_def monthTable_def)
  ultimately show ?thesis by simp
qed

text \<open>
  The claim as the specification words it asks for an integer. The first token \<open>2024.5\<close>
  is numeric and no integer, and the label parses, to the year 2024.5 and the month 1.
\<close>

theorem C2_fractional_year_counterexample:
  "Number (lit ''2024.5'') = Fin (4049 / 2)
   \<and> parseLtFixVersion (lit ''2024.5 sausis'') = Some \<lparr>year = 4049 / 2, month = MonthNum 1\<rparr>"
  using number_2024_5 lower_sausis split_2024_5_sausis
  by (simp add: parseLtFixVersion_def LT_MONTH_TO_NUM_def monthTable_def)

text \<open>
  A month candidate that names an inherited property is found too: the label parses, and
  its month is the inherited function, not a number.
\<close>

lemma split_2024_constructor:
  "splitWs (trim (lit ''2024 constructor'')) = [lit ''2024'', lit ''constructor'']"
  by (simp add: trim_def isWhiteSpace_def)

lemma parse_2024_constructor:
  "parseLtFixVersion (lit ''2024 constructor'')
     = Some \<lparr>year = 2024, month = Inherited (lit ''constructor'')\<rparr>"
  using number_2024 lower_constructor split_2024_constructor
  by (simp add: parseLtFixVersion_def LT_MONTH_TO_NUM_def monthTable_def objectPrototypeKeys_def)

section \<open>Properties of the paged aggregator\<close>

lemma fetchPages_bound: "safety \<le> 30 \<Longrightarrow> fst (fetchPages server safety token acc) \<le> 30"
proof (induction server safety token acc rule: fetchPages.induct)
  case (1 server safety token acc)
  show ?case
  proof (cases "safety < 30")
    case False
    with 1(2) show ?thesis by (simp add: fetchPages.simps)
  next
    case True
    then have s: "safety + 1 \<le> 30" by simp
    show ?thesis
    proof (cases "server safety (if truthy token then token else None)")
      case (Rejects msg)
      with True s show ?thesis by (simp add: fetchPages.simps [of server safety])
    next
      case (Reply st tx js)
      show ?thesis
      proof (cases "ok st")
        case False
        with Reply True s show ?thesis
          by (simp add: fetchPages.simps [of server safety] split: sum.splits)
      next
        case okst: True
        show ?thesis
        proof (cases js)
          case (Inl msg)
          with Reply True s okst show ?thesis by (simp add: fetchPages.simps [of server safety])
        next
          case (Inr data)
          let ?all = "acc @ (case page_issues data of None \<Rightarrow> [] | Some is \<Rightarrow> is)"
          let ?last = "(case page_isLast data of None \<Rightarrow> True | Some b \<Rightarrow> b)"
          show ?thesis
          proof (cases "?last \<or> \<not> truthy (page_nextPageToken data)")
            case stop: True
            with Reply True s okst Inr show ?thesis
              by (simp add: fetchPages.simps [of server safety] Let_def)
          next
            case go: False
            have "fst (fetchPages server (safety + 1) (page_nextPageToken data) ?all) \<le> 30"
              using 1(1) [OF True Reply _ Inr refl refl refl go] okst s by simp
            with Reply True okst Inr go show ?thesis
              by (simp add: fetchPages.simps [of server safety] Let_def)
          qed
        qed
      qed
    qed
  qed
qed

lemma cursor_sent:
  "(if truthy (cursorAt pages i) then cursorAt pages i else None) = cursorAt pages i"
  by (simp add: cursorAt_def)

lemma cursor_next:
  "truthy (page_nextPageToken (pages i)) \<Longrightarrow> cursorAt pages (Suc i) = page_nextPageToken (pages i)"
  by (simp add: cursorAt_def)

lemma fetchPages_step:
  assumes "safety < 30" "served server pages safety" "continues (pages safety)"
  shows "fetchPages server safety (cursorAt pages safety) acc
         = fetchPages server (safety + 1) (cursorAt pages (safety + 1)) (acc @ recordsOf (pages safety))"
proof -
  from assms(2) obtain st tx where st: "ok st"
    and r: "server safety (cursorAt pages safety) = Reply st tx (Inr (pages safety))"
    unfolding served_def by blast
  from assms(3) have t: "truthy (page_nextPageToken (pages safety))"
    and l: "page_isLast (pages safety) = Some False"
    by (simp_all add: continues_def)
  show ?thesis
    using assms(1) st t l
    by (simp add: fetchPages.simps [of server safety "cursorAt pages safety" acc]
        cursor_sent r cursor_next [of pages safety] recordsOf_def)
qed

lemma fetchPages_steps:
  assumes "n \<le> 30" "\<forall>i < n. served server pages i \<and> continues (pages i)"
  shows "k \<le> n \<Longrightarrow> fetchPages server 0 None []
         = fetchPages server k (cursorAt pages k) (concat (map (\<lambda>i. recordsOf (pages i)) [0..<k]))"
proof (induction k)
  case 0
  show ?case by (simp add: cursorAt_def)
next
  case (Suc k)
  then have "k < n" by simp
  with assms have "k < 30" "served server pages k" "continues (pages k)" by auto
  from fetchPages_step [OF this] Suc show ?case by simp
qed

lemma fetchPages_stop:
  assumes "safety < 30" "served server pages safety" "\<not> continues (pages safety)"
  shows "fetchPages server safety (cursorAt pages safety) acc
         = (safety + 1, Inr (acc @ recordsOf (pages safety)))"
proof -
  from assms(2) obtain st tx where st: "ok st"
    and r: "server safety (cursorAt pages safety) = Reply st tx (Inr (pages safety))"
    unfolding served_def by blast
  from assms(3) have "(case page_isLast (pages safety) of None \<Rightarrow> True | Some b \<Rightarrow> b)
      \<or> \<not> truthy (page_nextPageToken (pages safety))"
    by (auto simp: continues_def split: option.splits)
  then show ?thesis
    using assms(1) st
    by (simp add: fetchPages.simps [of server safety "cursorAt pages safety" acc]
        cursor_sent r recordsOf_def)
qed


section \<open>Properties of the routes\<close>

lemma envComplete_vars:
  assumes "envComplete e"
  shows "\<exists>b m t. mustGetEnv e (lit ''JIRA_BASE_URL'') = Inr b \<and> e (lit ''JIRA_BASE_URL'') = Some b
          \<and> mustGetEnv e (lit ''JIRA_EMAIL'') = Inr m
          \<and> mustGetEnv e (lit ''JIRA_API_TOKEN'') = Inr t"
proof -
  from assms obtain b m t where
    "e (lit ''JIRA_BASE_URL'') = Some b" "b \<noteq> []"
    "e (lit ''JIRA_EMAIL'') = Some m" "m \<noteq> []"
    "e (lit ''JIRA_API_TOKEN'') = Some t" "t \<noteq> []"
    unfolding envComplete_def
    by (metis truthy.elims(2))
  then show ?thesis
    by (simp add: mustGetEnv_def)
qed

lemma GET_issue_env:
  assumes "envComplete e"
  shows "GET_issue e fetchIssue k =
     (case fetchIssue (trim k) of
        Rejects msg \<Rightarrow> Failed (serverError msg)
      | Reply st tx js \<Rightarrow>
          if \<not> ok st then
            (case tx of
               Inl msg \<Rightarrow> Failed (serverError msg)
             | Inr body \<Rightarrow> Failed (jiraRequestFailed st body))
          else
            (case js of
               Inl msg \<Rightarrow> Failed (serverError msg)
             | Inr data \<Rightarrow> Json (assemble (the (e (lit ''JIRA_BASE_URL''))) data)))"
proof -
  from envComplete_vars [OF assms] obtain b m t where
    "mustGetEnv e (lit ''JIRA_BASE_URL'') = Inr b" "e (lit ''JIRA_BASE_URL'') = Some b"
    "mustGetEnv e (lit ''JIRA_EMAIL'') = Inr m" "mustGetEnv e (lit ''JIRA_API_TOKEN'') = Inr t"
    by blast
  then show ?thesis
    unfolding GET_issue_def Let_def by (simp only: sum.case option.sel)
qed

lemma GET_issues_env:
  assumes "envComplete e"
  shows "GET_issues e server localeCompare sortLong =
       (case snd (fetchPages server 0 None []) of
          Inl failure \<Rightarrow> Failed failure
        | Inr allIssuesRaw \<Rightarrow>
            Json \<lparr>total = length allIssuesRaw,
                  groups = arraySort sortLong (compareGroups localeCompare)
                    (groupIssues (the (e (lit ''JIRA_BASE_URL''))) allIssuesRaw)\<rparr>)"
proof -
  from envComplete_vars [OF assms] obtain b m t where
    "mustGetEnv e (lit ''JIRA_BASE_URL'') = Inr b" "e (lit ''JIRA_BASE_URL'') = Some b"
    "mustGetEnv e (lit ''JIRA_EMAIL'') = Inr m" "mustGetEnv e (lit ''JIRA_API_TOKEN'') = Inr t"
    by blast
  then show ?thesis
    unfolding GET_issues_def by (simp only: sum.case option.sel)
qed

text \<open>
  C5. The loop makes at most 30 requests. When each of the first 30 requests is answered
  with a page that offers a continuation (\<open>isLast\<close> false and a non-empty cursor), the loop
  ends after the 30th request with the records of these 30 pages, and with a complete
  environment the route answers with the JSON body of these records, not with an error.
\<close>

theorem C5_page_bound:
  "fst (fetchPages server 0 None []) \<le> 30
   \<and> (envComplete e \<and> (\<forall>i < 30. served server pages i \<and> continues (pages i)) \<longrightarrow>
        fetchPages server 0 None [] = (30, Inr (concat (map (\<lambda>i. recordsOf (pages i)) [0..<30])))
        \<and> GET_issues e server localeCompare sortLong =
            Json \<lparr>total = length (concat (map (\<lambda>i. recordsOf (pages i)) [0..<30])),
                  groups = arraySort sortLong (compareGroups localeCompare)
                    (groupIssues (the (e (lit ''JIRA_BASE_URL'')))
                       (concat (map (\<lambda>i. recordsOf (pages i)) [0..<30])))\<rparr>)"
proof (intro conjI impI)
  show "fst (fetchPages server 0 None []) \<le> 30" by (rule fetchPages_bound) simp
next
  assume a: "envComplete e \<and> (\<forall>i < 30. served server pages i \<and> continues (pages i))"
  then have "fetchPages server 0 None []
      = fetchPages server 30 (cursorAt pages 30) (concat (map (\<lambda>i. recordsOf (pages i)) [0..<30]))"
    using fetchPages_steps [of 30 server pages 30] by simp
  then show f: "fetchPages server 0 None [] = (30, Inr (concat (map (\<lambda>i. recordsOf (pages i)) [0..<30])))"
    by (simp add: fetchPages.simps [of server 30])
  from a show "GET_issues e server localeCompare sortLong =
            Json \<lparr>total = length (concat (map (\<lambda>i. recordsOf (pages i)) [0..<30])),
                  groups = arraySort sortLong (compareGroups localeCompare)
                    (groupIssues (the (e (lit ''JIRA_BASE_URL'')))
                       (concat (map (\<lambda>i. recordsOf (pages i)) [0..<30])))\<rparr>"
    by (simp add: GET_issues_env f)
qed

text \<open>
  C6. For \<open>n\<close> successful pages, \<open>n\<close> from 1 to 30, of which all but the last continue and
  the last does not (it sets \<open>isLast\<close>, or leaves it out, or has no cursor), the loop makes
  \<open>n\<close> requests and accumulates the records of the \<open>n\<close> pages, each once, in the order of
  the pages and within a page in the order of the page.
\<close>

theorem C6_all_pages_in_order:
  assumes "0 < n" "n \<le> 30"
    and "\<forall>i < n. served server pages i"
    and "\<forall>i < n - 1. continues (pages i)"
    and "\<not> continues (pages (n - 1))"
  shows "fetchPages server 0 None [] = (n, Inr (concat (map (\<lambda>i. recordsOf (pages i)) [0..<n])))
    \<and> (envComplete e \<longrightarrow>
         GET_issues e server localeCompare sortLong =
            Json \<lparr>total = length (concat (map (\<lambda>i. recordsOf (pages i)) [0..<n])),
                  groups = arraySort sortLong (compareGroups localeCompare)
                    (groupIssues (the (e (lit ''JIRA_BASE_URL'')))
                       (concat (map (\<lambda>i. recordsOf (pages i)) [0..<n])))\<rparr>)"
proof -
  from assms(1) obtain k where n: "n = Suc k" by (cases n) auto
  with assms have k: "k \<le> 30" "k < 30" "\<forall>i < k. served server pages i \<and> continues (pages i)"
    "served server pages k" "\<not> continues (pages k)"
    by auto
  have "fetchPages server 0 None []
      = fetchPages server k (cursorAt pages k) (concat (map (\<lambda>i. recordsOf (pages i)) [0..<k]))"
    using fetchPages_steps [OF k(1) k(3), of k] by simp
  also have "\<dots> = (k + 1, Inr (concat (map (\<lambda>i. recordsOf (pages i)) [0..<k]) @ recordsOf (pages k)))"
    by (rule fetchPages_stop [OF k(2) k(4) k(5)])
  finally have f: "fetchPages server 0 None [] = (n, Inr (concat (map (\<lambda>i. recordsOf (pages i)) [0..<n])))"
    using n by simp
  then show ?thesis by (simp add: GET_issues_env)
qed


text \<open>
  C9. When the issue route succeeds, the fields \<open>status\<close>, \<open>assignee\<close>, \<open>priority\<close>,
  \<open>issueType\<close> and \<open>created\<close> of its body are never left out: each is the upstream value
  when there is one and \<open>null\<close> when the upstream field, or the name in it, is absent or
  null.
\<close>

theorem C9_optional_fields:
  assumes "envComplete e" "fetchIssue (trim k) = Reply st tx (Inr data)" "ok st"
  shows "\<exists>d. GET_issue e fetchIssue k = Json d
     \<and> status d = fromOption (upstreamName (f_status (orElse (d_fields data) noFields)))
     \<and> assignee d = fromOption (upstreamName (f_assignee (orElse (d_fields data) noFields)))
     \<and> priority d = fromOption (upstreamName (f_priority (orElse (d_fields data) noFields)))
     \<and> issueType d = fromOption (upstreamName (f_issuetype (orElse (d_fields data) noFields)))
     \<and> created d = fromOption (upstreamValue (f_created (orElse (d_fields data) noFields)))
     \<and> status d \<noteq> Undefined \<and> assignee d \<noteq> Undefined \<and> priority d \<noteq> Undefined
     \<and> issueType d \<noteq> Undefined \<and> created d \<noteq> Undefined"
proof -
  have n: "orNull (chain x) = fromOption (upstreamName x)" for x :: "jsstring js js"
    by (cases x rule: upstreamName.cases) simp_all
  have v: "orNull x = fromOption (upstreamValue x)" for x :: "jsstring js"
    by (cases x) simp_all
  have w: "upstreamValue (chain x) = upstreamName x" for x :: "jsstring js js"
    by (cases x rule: upstreamName.cases) simp_all
  have u: "fromOption x \<noteq> Undefined" for x :: "jsstring option"
    by (cases x) simp_all
  define d where "d = assemble (the (e (lit ''JIRA_BASE_URL''))) data"
  from assms have g: "GET_issue e fetchIssue k = Json d"
    by (simp add: GET_issue_env d_def)
  have f: "status d = fromOption (upstreamName (f_status (orElse (d_fields data) noFields)))"
    "assignee d = fromOption (upstreamName (f_assignee (orElse (d_fields data) noFields)))"
    "priority d = fromOption (upstreamName (f_priority (orElse (d_fields data) noFields)))"
    "issueType d = fromOption (upstreamName (f_issuetype (orElse (d_fields data) noFields)))"
    "created d = fromOption (upstreamValue (f_created (orElse (d_fields data) noFields)))"
    by (simp_all add: d_def assemble_def Let_def v w)
  from g f u show ?thesis by simp
qed

section \<open>Properties of the grouping\<close>

lemma mapGet_None_iff: "mapGet gm n = None \<longleftrightarrow> n \<notin> set (map fixVersion gm)"
  by (auto simp: mapGet_def find_None_iff)

lemma names_pushIssue: "map fixVersion (pushIssue n i gm) = map fixVersion gm"
  by (induction gm) (simp_all add: pushIssue_def)

lemma membersOf_pushIssue:
  "membersOf (pushIssue n i gm) m =
     (if m = n then map_option (\<lambda>l. l @ [i]) (membersOf gm n) else membersOf gm m)"
  by (induction gm) (auto simp: pushIssue_def membersOf_def mapGet_def)

lemma membersOf_create:
  "membersOf (gm @ [\<lparr>fixVersion = n, released = r, group_issues = []\<rparr>]) m =
     (case membersOf gm m of Some l \<Rightarrow> Some l | None \<Rightarrow> if m = n then Some [] else None)"
  by (induction gm) (auto simp: membersOf_def mapGet_def)

lemma membersOf_None_iff: "membersOf gm n = None \<longleftrightarrow> mapGet gm n = None"
  by (simp add: membersOf_def)

lemma membersOf_addFixVersions:
  "membersOf (addFixVersions i fvs seen gm) n =
     (if n \<noteq> [] \<and> Some n \<in> set (map fv_name fvs) \<and> n \<notin> set seen
      then Some ((case membersOf gm n of None \<Rightarrow> [] | Some l \<Rightarrow> l) @ [i])
      else membersOf gm n)"
proof (induction fvs arbitrary: seen gm)
  case Nil
  show ?case by simp
next
  case (Cons fv fvs)
  show ?case
  proof (cases "fv_name fv")
    case None
    then show ?thesis using Cons.IH [of seen gm] by auto
  next
    case (Some nm)
    show ?thesis
    proof (cases "nm = [] \<or> nm \<in> set seen")
      case True
      with Some show ?thesis using Cons.IH [of seen gm] by auto
    next
      case False
      define created where "created =
        (if mapGet gm nm = None
         then gm @ [\<lparr>fixVersion = nm, released = fv_released fv, group_issues = []\<rparr>] else gm)"
      have step: "addFixVersions i (fv # fvs) seen gm
          = addFixVersions i fvs (nm # seen) (pushIssue nm i created)"
        using Some False by (simp add: created_def Let_def)
      have cr: "membersOf created m =
          (if m = nm \<and> membersOf gm nm = None then Some [] else membersOf gm m)" for m
        by (auto simp: created_def membersOf_create membersOf_None_iff [symmetric]
            split: option.splits)
      have pu: "membersOf (pushIssue nm i created) m =
          (if m = nm then Some ((case membersOf gm nm of None \<Rightarrow> [] | Some l \<Rightarrow> l) @ [i])
           else membersOf gm m)" for m
        by (auto simp: membersOf_pushIssue cr split: option.splits)
      show ?thesis
        unfolding step Cons.IH [of "nm # seen" "pushIssue nm i created"] pu
        using Some False by auto
    qed
  qed
qed

lemma names_addFixVersions:
  "distinct (map fixVersion gm) \<Longrightarrow> distinct (map fixVersion (addFixVersions i fvs seen gm))"
proof (induction fvs arbitrary: seen gm)
  case Nil
  then show ?case by simp
next
  case (Cons fv fvs)
  show ?case
  proof (cases "fv_name fv")
    case None
    then show ?thesis using Cons by simp
  next
    case (Some nm)
    have "distinct (map fixVersion (pushIssue nm i
        (if mapGet gm nm = None
         then gm @ [\<lparr>fixVersion = nm, released = fv_released fv, group_issues = []\<rparr>] else gm)))"
      using Cons.prems by (auto simp: names_pushIssue mapGet_None_iff)
    with Some Cons show ?thesis by (simp add: Let_def)
  qed
qed

lemma membersOf_foldl:
  "membersOf (foldl (\<lambda>groupsMap raw. addFixVersions (trimIssue baseUrl raw) (raw_fixVersions raw) [] groupsMap) gm raws) n =
     (case membersOf gm n of
        None \<Rightarrow> if \<exists>r \<in> set raws. namesRelease r n
                then Some (map (trimIssue baseUrl) (filter (\<lambda>r. namesRelease r n) raws)) else None
      | Some l \<Rightarrow> Some (l @ map (trimIssue baseUrl) (filter (\<lambda>r. namesRelease r n) raws)))"
proof (induction raws arbitrary: gm)
  case Nil
  show ?case by (simp split: option.splits)
next
  case (Cons r raws)
  show ?case
    unfolding foldl_Cons Cons.IH membersOf_addFixVersions
    by (auto simp: namesRelease_def split: option.splits)
qed

lemma distinct_foldl:
  "distinct (map fixVersion gm) \<Longrightarrow>
   distinct (map fixVersion (foldl (\<lambda>groupsMap raw. addFixVersions (trimIssue baseUrl raw) (raw_fixVersions raw) [] groupsMap) gm raws))"
  by (induction raws arbitrary: gm) (simp_all add: names_addFixVersions)

text \<open>
  C7. The group of a release name holds one entry for each record whose release list
  names it, however often the list names it, in the order of the records; names are
  compared as they are. No two groups share a name.
\<close>

theorem C7_one_entry_per_record:
  "membersOf (groupIssues baseUrl raws) n =
     (if \<exists>r \<in> set raws. namesRelease r n
      then Some (map (trimIssue baseUrl) (filter (\<lambda>r. namesRelease r n) raws)) else None)
   \<and> distinct (map fixVersion (groupIssues baseUrl raws))"
proof -
  have "membersOf [] n = None" by (simp add: membersOf_def mapGet_def)
  then show ?thesis
    unfolding groupIssues_def by (simp add: membersOf_foldl distinct_foldl)
qed

lemma env0_complete: "envComplete env0"
  by (simp add: envComplete_def env0_def)

lemma env0_base: "the (env0 (lit ''JIRA_BASE_URL'')) = lit ''https://jira''"
  by (simp add: env0_def)

lemma groupIssues_plain:
  "\<forall>r \<in> set raws. raw_fixVersions r = [] \<Longrightarrow> groupIssues baseUrl raws = []"
  unfolding groupIssues_def by (induction raws) simp_all

section \<open>The routes on examples\<close>

theorem C5_page_bound_witness:
  "fst (fetchPages endless 0 None []) = 30
   \<and> GET_issues env0 endless (\<lambda>a b. 0) keepOrder = Json \<lparr>total = 30, groups = []\<rparr>"
proof -
  have s: "\<forall>i < 30. served endless (\<lambda>i. endlessPage) i \<and> continues endlessPage"
    by (simp add: served_def endless_def ok_def continues_def endlessPage_def)
  let ?all = "concat (map (\<lambda>i. recordsOf endlessPage) [0..<30])"
  have l: "length ?all = 30"
    by (simp add: length_concat recordsOf_def endlessPage_def comp_def sum_list_triv)
  have "\<forall>r \<in> set ?all. raw_fixVersions r = []"
    by (auto simp: recordsOf_def endlessPage_def plainIssue_def)
  then have g: "groupIssues (lit ''https://jira'') ?all = []" by (rule groupIssues_plain)
  from C5_page_bound [of endless env0 "\<lambda>i. endlessPage" "\<lambda>a b. 0" keepOrder] env0_complete s
  have "fetchPages endless 0 None [] = (30, Inr ?all)"
    and "GET_issues env0 endless (\<lambda>a b. 0) keepOrder =
      Json \<lparr>total = length ?all,
            groups = arraySort keepOrder (compareGroups (\<lambda>a b. 0)) (groupIssues (the (env0 (lit ''JIRA_BASE_URL''))) ?all)\<rparr>"
    by blast+
  then show ?thesis
    unfolding l env0_base g by (simp add: arraySort_def)
qed

theorem C6_all_pages_in_order_witness:
  "fetchPages threeServer 0 None []
     = (3, Inr [plainIssue (lit ''A''), plainIssue (lit ''B''), plainIssue (lit ''C''),
                plainIssue (lit ''D'')])"
proof -
  have "\<forall>i < 3. served threeServer threePages i"
    by (simp add: served_def threeServer_def ok_def)
  moreover have "\<forall>i < 3 - 1. continues (threePages i)"
    by (auto simp: continues_def threePages_def)
  moreover have "\<not> continues (threePages (3 - 1))"
    by (simp add: continues_def threePages_def)
  ultimately have "fetchPages threeServer 0 None []
      = (3, Inr (concat (map (\<lambda>i. recordsOf (threePages i)) [0..<3])))"
    using C6_all_pages_in_order [of 3 threeServer threePages env0 "\<lambda>a b. 0" keepOrder] by simp
  moreover have "[0..<3] = [0, 1, 2]" by (simp add: upt_rec)
  ultimately show ?thesis
    by (simp add: recordsOf_def threePages_def)
qed


theorem C9_optional_fields_witness:
  "\<exists>d. GET_issue env0 bareIssue (lit ''K-1'') = Json d
     \<and> status d = Null \<and> assignee d = Null \<and> priority d = Val (lit ''High'')
     \<and> issueType d = Null \<and> created d = Null"
proof -
  have "bareIssue (trim (lit ''K-1'')) = Reply 200 (Inr [])
       (Inr \<lparr>d_key = Val (trim (lit ''K-1'')),
             d_fields = Val (noFields\<lparr>f_priority := Val (Val (lit ''High'')),
                                      f_status := Val Undefined, f_assignee := Null\<rparr>)\<rparr>)"
    by (simp add: bareIssue_def)
  from C9_optional_fields [of env0 bareIssue "lit ''K-1''", OF env0_complete this] show ?thesis
    by (auto simp: ok_def noFields_def)
qed

theorem C7_one_entry_per_record_witness:
  "membersOf (groupIssues (lit ''u'') [twice]) (lit ''2024 Sausis'')
     = Some [\<lparr>issue_key = lit ''K-1'', issue_summary = lit ''s'', issue_url = lit ''u/browse/K-1''\<rparr>]"
  using C7_one_entry_per_record [of "lit ''u''" "[twice]" "lit ''2024 Sausis''"]
  by (simp add: namesRelease_def twice_def trimIssue_def)

section \<open>The order of the groups in the response\<close>

lemma parse_2023_sausis:
  "parseLtFixVersion (lit ''2023 sausis'') = Some \<lparr>year = 2023, month = MonthNum 1\<rparr>"
proof -
  have "splitWs (trim (lit ''2023 sausis'')) = [lit ''2023'', lit ''sausis'']"
    by (simp add: trim_def isWhiteSpace_def)
  with number_2023 lower_sausis show ?thesis
    by (simp add: parseLtFixVersion_def LT_MONTH_TO_NUM_def monthTable_def)
qed

lemma parse_2024_sausis:
  "parseLtFixVersion (lit ''2024 sausis'') = Some \<lparr>year = 2024, month = MonthNum 1\<rparr>"
proof -
  have "splitWs (trim (lit ''2024 sausis'')) = [lit ''2024'', lit ''sausis'']"
    by (simp add: trim_def isWhiteSpace_def)
  with number_2024 lower_sausis show ?thesis
    by (simp add: parseLtFixVersion_def LT_MONTH_TO_NUM_def monthTable_def)
qed

lemma key_2023_sausis: "monthKey \<lparr>year = 2023, month = MonthNum 1\<rparr> = KeyNum (Fin 202301)"
  by (simp add: monthKey_def round64_def floorLog2.simps powInt_def roundHalfEven_def Let_def)

lemma key_2024_sausis: "monthKey \<lparr>year = 2024, month = MonthNum 1\<rparr> = KeyNum (Fin 202401)"
  by (simp add: monthKey_def round64_def floorLog2.simps powInt_def roundHalfEven_def Let_def)

lemma key_2024_constructor:
  "monthKey \<lparr>year = 2024, month = Inherited (lit ''constructor'')\<rparr> = KeyString"
  by (simp add: monthKey_def)

lemma subNum_NaN: "subNum v NaN = NaN" "subNum NaN v = NaN"
  by (cases v; simp add: subNum_def)+

text \<open>A run of three that the procedure finds in order is returned as it is.\<close>

lemma arraySort_run3:
  assumes "\<not> orderNegative (cmp b a)" "\<not> orderNegative (cmp c b)"
  shows "arraySort sortLong cmp [a, b, c] = [a, b, c]"
  using assms by (simp add: arraySort_def countAndMakeRun_def)

text \<open>
  C3 at an input on which it fails. One record carries the releases \<open>2023 sausis\<close>,
  \<open>2024 constructor\<close> and \<open>2024 sausis\<close>, in this order. All three names parse. The key
  of the second is a string, so the comparator returns not-a-number for it against either
  neighbour, the array counts as sorted, and the response lists \<open>2023 sausis\<close> (key 202301)
  before \<open>2024 sausis\<close> (key 202401), whatever the collation of the host.
\<close>

theorem C3_older_release_first:
  "GET_issues env0 threeReleases localeCompare sortLong =
     Json \<lparr>total = 1,
           groups = map (\<lambda>n. \<lparr>fixVersion = n, released = None,
                               group_issues = [\<lparr>issue_key = lit ''K-1'', issue_summary = [],
                                                 issue_url = lit ''https://jira/browse/K-1''\<rparr>]\<rparr>)
                      [lit ''2023 sausis'', lit ''2024 constructor'', lit ''2024 sausis'']\<rparr>
   \<and> map_option monthKey (parseLtFixVersion (lit ''2023 sausis'')) = Some (KeyNum (Fin 202301))
   \<and> map_option monthKey (parseLtFixVersion (lit ''2024 sausis'')) = Some (KeyNum (Fin 202401))
   \<and> map_option monthKey (parseLtFixVersion (lit ''2024 constructor'')) = Some KeyString"
proof -
  define i where "i = \<lparr>issue_key = lit ''K-1'', issue_summary = [],
    issue_url = lit ''https://jira/browse/K-1''\<rparr>"
  define g where "g = (\<lambda>n. \<lparr>fixVersion = n, released = None, group_issues = [i]\<rparr>)"
  define raw where "raw = \<lparr>raw_key = lit ''K-1'', raw_summary = None,
    raw_fixVersions = [sausis2023, constructor2024, sausis2024]\<rparr>"
  have f: "fetchPages threeReleases 0 None [] = (1, Inr [raw])"
    by (simp add: fetchPages.simps [of threeReleases 0] threeReleases_def ok_def raw_def)
  have gr: "groupIssues (lit ''https://jira'') [raw]
      = [g (lit ''2023 sausis''), g (lit ''2024 constructor''), g (lit ''2024 sausis'')]"
    by (simp add: groupIssues_def raw_def sausis2023_def constructor2024_def sausis2024_def
        trimIssue_def mapGet_def pushIssue_def g_def i_def)
  have c1: "compareGroups localeCompare (g (lit ''2024 constructor'')) (g (lit ''2023 sausis'')) = NaN"
    using parse_2024_constructor parse_2023_sausis key_2024_constructor
    by (simp add: compareGroups_def g_def subNum_NaN)
  have c2: "compareGroups localeCompare (g (lit ''2024 sausis'')) (g (lit ''2024 constructor'')) = NaN"
    using parse_2024_constructor parse_2024_sausis key_2024_constructor
    by (simp add: compareGroups_def g_def subNum_NaN)
  have "arraySort sortLong (compareGroups localeCompare)
      [g (lit ''2023 sausis''), g (lit ''2024 constructor''), g (lit ''2024 sausis'')]
      = [g (lit ''2023 sausis''), g (lit ''2024 constructor''), g (lit ''2024 sausis'')]"
    by (rule arraySort_run3) (simp_all only: c1 c2 orderNegative_def jsnum.case, simp_all)
  with f gr env0_base have "GET_issues env0 threeReleases localeCompare sortLong =
     Json \<lparr>total = 1, groups = [g (lit ''2023 sausis''), g (lit ''2024 constructor''), g (lit ''2024 sausis'')]\<rparr>"
    by (simp add: GET_issues_env [OF env0_complete])
  then have 1: "GET_issues env0 threeReleases localeCompare sortLong =
     Json \<lparr>total = 1,
           groups = map (\<lambda>n. \<lparr>fixVersion = n, released = None,
                               group_issues = [\<lparr>issue_key = lit ''K-1'', issue_summary = [],
                                                 issue_url = lit ''https://jira/browse/K-1''\<rparr>]\<rparr>)
                      [lit ''2023 sausis'', lit ''2024 constructor'', lit ''2024 sausis'']\<rparr>"
    by (simp add: g_def i_def)
  show ?thesis
    using parse_2023_sausis parse_2024_sausis parse_2024_constructor
      key_2023_sausis key_2024_sausis key_2024_constructor
    by (intro conjI 1) simp_all
qed

lemma rankedD: "ranked cmp r S \<Longrightarrow> x \<in> S \<Longrightarrow> y \<in> S \<Longrightarrow> orderNegative (cmp x y) \<longleftrightarrow> r x < r y"
  by (simp add: ranked_def)

lemma set_take_union_drop: "set (take n xs) \<union> set (drop n xs) = set xs"
  by (metis append_take_drop_id set_append)

lemma runLength_le: "runLength cmp d prev rest \<le> length rest"
  by (induction rest arbitrary: prev) auto

lemma run_ascending:
  assumes "ranked cmp r S"
  shows "prev \<in> S \<Longrightarrow> set rest \<subseteq> S \<Longrightarrow>
         sorted (map r (prev # take (runLength cmp False prev rest) rest))"
proof (induction rest arbitrary: prev)
  case Nil
  show ?case by simp
next
  case (Cons c rest)
  show ?case
  proof (cases "orderNegative (cmp c prev)")
    case True
    then show ?thesis by simp
  next
    case False
    with rankedD [OF assms, of c prev] Cons.prems have "r prev \<le> r c" by auto
    moreover have "sorted (map r (c # take (runLength cmp False c rest) rest))"
      using Cons.IH [of c] Cons.prems by simp
    ultimately show ?thesis using False by (auto intro: order_trans)
  qed
qed

lemma run_descending:
  assumes "ranked cmp r S"
  shows "prev \<in> S \<Longrightarrow> set rest \<subseteq> S \<Longrightarrow>
         sorted (map r (rev (prev # take (runLength cmp True prev rest) rest)))
         \<and> (\<forall>x \<in> set (prev # take (runLength cmp True prev rest) rest). r x \<le> r prev)"
proof (induction rest arbitrary: prev)
  case Nil
  show ?case by simp
next
  case (Cons c rest)
  show ?case
  proof (cases "orderNegative (cmp c prev)")
    case False
    then show ?thesis by simp
  next
    case True
    with rankedD [OF assms, of c prev] Cons.prems have lt: "r c < r prev" by auto
    let ?t = "take (runLength cmp True c rest) rest"
    from Cons.IH [of c] Cons.prems
    have s: "sorted (map r (rev (c # ?t)))" and b: "\<forall>x \<in> set (c # ?t). r x \<le> r c"
      by simp_all
    have run: "take (runLength cmp True prev (c # rest)) (c # rest) = c # ?t"
      using True by simp
    have "sorted (map r (rev (c # ?t)) @ [r prev])"
      unfolding sorted_append using s b lt by auto
    moreover have "\<forall>x \<in> set (prev # c # ?t). r x \<le> r prev"
      using b lt by auto
    ultimately show ?thesis unfolding run by simp
  qed
qed

lemma countAndMakeRun_sorted:
  assumes rk: "ranked cmp r S" and S: "set xs \<subseteq> S"
    and res: "countAndMakeRun cmp xs = (ys, n)"
  shows "sorted (map r (take n ys)) \<and> n \<le> length ys \<and> length ys = length xs
         \<and> set (take n ys) \<union> set (drop n ys) = set xs"
proof (cases xs)
  case Nil
  with res show ?thesis by (auto simp: countAndMakeRun_def)
next
  case (Cons hi t)
  show ?thesis
  proof (cases t)
    case Nil
    with Cons res show ?thesis by (auto simp: countAndMakeRun_def)
  next
    case (Cons lo rest)
    note xs = \<open>xs = hi # t\<close> Cons
    from S xs have mem: "hi \<in> S" "lo \<in> S" "set rest \<subseteq> S" by auto
    define d where "d = orderNegative (cmp lo hi)"
    define k where "k = runLength cmp d lo rest"
    have kl: "k \<le> length rest" unfolding k_def by (rule runLength_le)
    have n: "n = 2 + k"
      using res xs by (auto simp: countAndMakeRun_def d_def k_def Let_def)
    have ys: "ys = (if d then rev (take n xs) @ drop n xs else xs)"
      using res xs unfolding n by (auto simp: countAndMakeRun_def d_def k_def Let_def)
    have tk: "take n xs = hi # lo # take k rest" using xs n by simp
    have len: "n \<le> length xs" using xs n kl by simp
    show ?thesis
    proof (cases d)
      case False
      with ys have y: "ys = xs" by simp
      from False rankedD [OF rk mem(2) mem(1)] have "r hi \<le> r lo" by (auto simp: d_def)
      moreover have "sorted (map r (lo # take k rest))"
        using run_ascending [OF rk mem(2) mem(3)] False by (simp add: k_def)
      ultimately have "sorted (map r (take n xs))" unfolding tk by (auto intro: order_trans)
      with y len show ?thesis by (simp add: set_take_union_drop)
    next
      case True
      with ys have y: "ys = rev (take n xs) @ drop n xs" by simp
      from True rankedD [OF rk mem(2) mem(1)] have lt: "r lo < r hi" by (auto simp: d_def)
      from run_descending [OF rk mem(2) mem(3)] True
      have s: "sorted (map r (rev (lo # take k rest)))"
        and b: "\<forall>x \<in> set (lo # take k rest). r x \<le> r lo"
        by (simp_all add: k_def)
      have "sorted (map r (rev (lo # take k rest)) @ [r hi])"
        unfolding sorted_append using s b lt by auto
      then have "sorted (map r (rev (take n xs)))" unfolding tk by simp
      moreover have "take n ys = rev (take n xs)" using y len by simp
      moreover have "drop n ys = drop n xs" using y len by simp
      moreover have "length ys = length xs" using y len by simp
      ultimately show ?thesis using len by (simp add: set_take_union_drop)
    qed
  qed
qed

lemma binarySearch_spec:
  assumes rk: "ranked cmp r S" and p: "p \<in> S" and a: "set a \<subseteq> S"
    and srt: "sorted (map r a)"
  shows "left \<le> right \<Longrightarrow> right \<le> length a
     \<Longrightarrow> (\<forall>i < left. r (a ! i) \<le> r p)
     \<Longrightarrow> (\<forall>i. right \<le> i \<and> i < length a \<longrightarrow> r p < r (a ! i))
     \<Longrightarrow> binarySearch cmp p a left right \<le> length a
         \<and> (\<forall>i < binarySearch cmp p a left right. r (a ! i) \<le> r p)
         \<and> (\<forall>i. binarySearch cmp p a left right \<le> i \<and> i < length a \<longrightarrow> r p < r (a ! i))"
proof (induction "right - left" arbitrary: left right rule: less_induct)
  case less
  show ?case
  proof (cases "left < right")
    case False
    then have "binarySearch cmp p a left right = left"
      by (simp add: binarySearch.simps [of cmp p a left right])
    moreover from False less.prems have "left = right" by simp
    ultimately show ?thesis using less.prems by simp
  next
    case True
    define mid where "mid = left + (right - left) div 2"
    from True have m: "left \<le> mid" "mid < right" unfolding mid_def by auto
    with less.prems have ml: "mid < length a" by simp
    then have am: "a ! mid \<in> S" using a by (meson nth_mem subsetD)
    have mono: "\<And>i j. i \<le> j \<Longrightarrow> j < length a \<Longrightarrow> r (a ! i) \<le> r (a ! j)"
      using srt by (simp add: sorted_iff_nth_mono)
    show ?thesis
    proof (cases "orderNegative (cmp p (a ! mid))")
      case neg: True
      with rankedD [OF rk p am] have lt: "r p < r (a ! mid)" by simp
      have up: "\<forall>i. mid \<le> i \<and> i < length a \<longrightarrow> r p < r (a ! i)"
        using lt mono by (meson less_le_trans)
      have eq: "binarySearch cmp p a left right = binarySearch cmp p a left mid"
        using True neg by (simp add: binarySearch.simps [of cmp p a left right] mid_def Let_def)
      have "mid - left < right - left" using m by simp
      from less.hyps [OF this m(1) _ less.prems(3) up] ml
      show ?thesis unfolding eq by simp
    next
      case nonneg: False
      with rankedD [OF rk p am] have le: "r (a ! mid) \<le> r p" by simp
      have low: "\<forall>i < mid + 1. r (a ! i) \<le> r p"
        using le mono ml by (metis Suc_eq_plus1 less_Suc_eq_le order_trans)
      have eq: "binarySearch cmp p a left right = binarySearch cmp p a (mid + 1) right"
        using True nonneg by (simp add: binarySearch.simps [of cmp p a left right] mid_def Let_def)
      have "right - (mid + 1) < right - left" "mid + 1 \<le> right" using m by simp_all
      from less.hyps [OF this less.prems(2) low less.prems(4)]
      show ?thesis unfolding eq by simp
    qed
  qed
qed

lemma insert_sorted:
  assumes "sorted (map r a)" "L \<le> length a"
    and "\<forall>i < L. r (a ! i) \<le> r p" and "\<forall>i. L \<le> i \<and> i < length a \<longrightarrow> r p < r (a ! i)"
  shows "sorted (map r (take L a @ p # drop L a))"
proof -
  have t: "\<forall>x \<in> set (take L a). r x \<le> r p"
    using assms(2,3) by (auto simp: in_set_conv_nth)
  have d: "\<forall>x \<in> set (drop L a). r p < r x"
    using assms(2,4) by (auto simp: in_set_conv_nth)
  have "sorted (map r (take L a))" "sorted (map r (drop L a))"
    using assms(1) by (simp_all add: take_map [symmetric] drop_map [symmetric] sorted_wrt_take sorted_wrt_drop)
  with t d show ?thesis
    by (fastforce simp: sorted_append intro: order_trans less_imp_le)
qed

lemma binaryInsertionSort_sorted:
  assumes rk: "ranked cmp r S"
  shows "set done \<subseteq> S \<Longrightarrow> set rest \<subseteq> S \<Longrightarrow> sorted (map r done)
     \<Longrightarrow> sorted (map r (binaryInsertionSort cmp done rest))
         \<and> set (binaryInsertionSort cmp done rest) = set done \<union> set rest
         \<and> length (binaryInsertionSort cmp done rest) = length done + length rest"
proof (induction rest arbitrary: "done")
  case Nil
  then show ?case by simp
next
  case (Cons p rest)
  define L where "L = binarySearch cmp p done 0 (length done)"
  have p: "p \<in> S" using Cons.prems by simp
  have sp: "L \<le> length done \<and> (\<forall>i < L. r (done ! i) \<le> r p)
      \<and> (\<forall>i. L \<le> i \<and> i < length done \<longrightarrow> r p < r (done ! i))"
    unfolding L_def
    by (rule binarySearch_spec [OF rk p Cons.prems(1) Cons.prems(3)]) auto
  let ?d = "take L done @ p # drop L done"
  have s: "sorted (map r ?d)" using insert_sorted [OF Cons.prems(3)] sp by blast
  have st: "set ?d = insert p (set done)"
    using set_take_union_drop [of L "done"] by auto
  have ln: "length ?d = Suc (length done)" using sp by simp
  have "set ?d \<subseteq> S" "set rest \<subseteq> S" using st Cons.prems by auto
  from Cons.IH [OF this s]
  have res: "sorted (map r (binaryInsertionSort cmp ?d rest))
      \<and> set (binaryInsertionSort cmp ?d rest) = set ?d \<union> set rest
      \<and> length (binaryInsertionSort cmp ?d rest) = length ?d + length rest" .
  have step: "binaryInsertionSort cmp done (p # rest) = binaryInsertionSort cmp ?d rest"
    by (simp add: L_def Let_def)
  show ?case
    using res unfolding step st ln by simp
qed

text \<open>
  With a comparator that a rank decides, the procedure for fewer than 64 elements returns
  the elements of the array in ascending rank.
\<close>

theorem arraySort_sorted:
  assumes "ranked cmp r (set xs)" and short: "length xs < 64"
  shows "sorted (map r (arraySort sortLong cmp xs)) \<and> set (arraySort sortLong cmp xs) = set xs
         \<and> length (arraySort sortLong cmp xs) = length xs"
proof (cases "length xs < 2")
  case True
  then have "xs = [] \<or> (\<exists>x. xs = [x])"
    by (cases xs) (auto simp: length_Suc_conv)
  then show ?thesis using True by (auto simp: arraySort_def)
next
  case False
  obtain ys n where c: "countAndMakeRun cmp xs = (ys, n)" by (cases "countAndMakeRun cmp xs")
  from countAndMakeRun_sorted [OF assms(1) subset_refl c]
  have s: "sorted (map r (take n ys))" and n: "n \<le> length ys" and l: "length ys = length xs"
    and st: "set (take n ys) \<union> set (drop n ys) = set xs"
    by simp_all
  have "set (take n ys) \<subseteq> set xs" "set (drop n ys) \<subseteq> set xs" using st by auto
  from binaryInsertionSort_sorted [OF assms(1) this s] st n l False c short
  show ?thesis by (simp add: arraySort_def)
qed

section \<open>The sign of a rounded difference\<close>

lemma powInt_powi: "powInt 2 e = 2 powi e"
  by (simp add: powInt_def power_int_def power_one_over inverse_eq_divide)

lemma floorLog2_lower: "0 < x \<Longrightarrow> 2 powi (floorLog2 x) \<le> x"
proof (induction x rule: floorLog2.induct)
  case (1 x)
  show ?case
  proof (cases "2 \<le> x")
    case True
    then have "2 powi (floorLog2 (x / 2)) \<le> x / 2" using 1(1) by simp
    then have "2 powi (floorLog2 (x / 2) + 1) \<le> x" by (simp add: power_int_add)
    with True show ?thesis by (simp add: floorLog2.simps [of x])
  next
    case False
    show ?thesis
    proof (cases "x < 1")
      case True
      with False "1.prems" have "2 powi (floorLog2 (x * 2)) \<le> x * 2" using 1(2) by simp
      then have "2 powi (floorLog2 (x * 2) - 1) \<le> x" by (simp add: power_int_diff)
      with True False "1.prems" show ?thesis by (simp add: floorLog2.simps [of x])
    next
      case ge: False
      with False show ?thesis by (simp add: floorLog2.simps [of x])
    qed
  qed
qed

lemma roundHalfEven_bounds:
  "of_int (roundHalfEven t) \<le> t + 1 / 2 \<and> t - 1 / 2 \<le> of_int (roundHalfEven t)"
proof -
  define f where "f = \<lfloor>t\<rfloor>"
  define d where "d = t - of_int f"
  have t: "t = of_int f + d" by (simp add: d_def)
  have d: "0 \<le> d" "d < 1" unfolding d_def f_def by linarith+
  have r: "roundHalfEven t = (if d < 1 / 2 then f else if 1 / 2 < d then f + 1
      else if even f then f else f + 1)"
    by (simp add: roundHalfEven_def f_def d_def Let_def)
  consider "d < 1 / 2" | "1 / 2 < d" | "d = 1 / 2" by linarith
  then show ?thesis
  proof cases
    case 1
    with r have "roundHalfEven t = f" by simp
    with 1 d show ?thesis unfolding t by simp
  next
    case 2
    with r have "roundHalfEven t = f + 1" by simp
    with 2 d show ?thesis unfolding t by simp
  next
    case 3
    with r have "roundHalfEven t = f \<or> roundHalfEven t = f + 1" by simp
    with 3 show ?thesis unfolding t by auto
  qed
qed

lemma ulpOf_pos: "0 < ulpOf x"
  by (simp add: ulpOf_def powInt_powi zero_less_power_int)

lemma round64_unfold:
  "x \<noteq> 0 \<Longrightarrow> round64 x =
     (if 2 ^ 1024 \<le> \<bar>of_int (roundHalfEven (x / ulpOf x)) * ulpOf x\<bar>
      then (if 0 < x then PosInf else NegInf)
      else Fin (of_int (roundHalfEven (x / ulpOf x)) * ulpOf x))"
  by (simp add: round64_def ulpOf_def Let_def)

lemma grid_pos: "0 < grid"
  by (simp add: grid_def zero_less_power_int)

lemma grid_le_one: "grid \<le> 1"
proof -
  have "grid = (1 / 2) ^ 1074" by (simp add: grid_def power_int_def inverse_eq_divide)
  also have "\<dots> \<le> 1" by (rule power_le_one) simp_all
  finally show ?thesis .
qed

lemma ulpOf_le:
  assumes "x \<noteq> 0"
  shows "ulpOf x \<le> max \<bar>x\<bar> (grid)"
proof (cases "- 1022 \<le> floorLog2 \<bar>x\<bar>")
  case True
  then have "ulpOf x = 2 powi (floorLog2 \<bar>x\<bar> - 52)" by (simp add: ulpOf_def powInt_powi max_def)
  also have "\<dots> \<le> 2 powi (floorLog2 \<bar>x\<bar>)" by (rule power_int_increasing) simp_all
  also have "\<dots> \<le> \<bar>x\<bar>" using assms by (simp add: floorLog2_lower)
  finally show ?thesis by simp
next
  case False
  then have "ulpOf x = grid" by (simp add: ulpOf_def powInt_powi max_def grid_def)
  then show ?thesis by simp
qed

lemma onGrid_diff: "onGrid a \<Longrightarrow> onGrid b \<Longrightarrow> onGrid (a - b)"
proof -
  assume "onGrid a" "onGrid b"
  then obtain k l :: int where "a = of_int k * grid" "b = of_int l * grid"
    unfolding onGrid_def by blast
  then have "a - b = of_int (k - l) * grid" by (simp add: algebra_simps)
  then show ?thesis unfolding onGrid_def by blast
qed

lemma onGrid_magnitude:
  assumes "onGrid x" "x \<noteq> 0"
  shows "grid \<le> \<bar>x\<bar>"
proof -
  from assms obtain k :: int where x: "x = of_int k * grid" unfolding onGrid_def by blast
  with assms(2) have "k \<noteq> 0" by auto
  then have "1 \<le> \<bar>k\<bar>" by simp
  then have "(1::rat) \<le> of_int \<bar>k\<bar>" by (simp only: of_int_1_le_iff)
  then have "1 * grid \<le> of_int \<bar>k\<bar> * grid" using grid_pos by (simp only: mult_le_cancel_right_pos)
  moreover have "\<bar>x\<bar> = of_int \<bar>k\<bar> * grid" unfolding x using grid_pos by (simp add: abs_mult)
  ultimately show ?thesis by simp
qed

lemma round64_onGrid: "round64 x = Fin q \<Longrightarrow> onGrid q"
proof (cases "x = 0")
  case True
  assume "round64 x = Fin q"
  with True have "q = 0" by (simp add: round64_def)
  then show ?thesis unfolding onGrid_def by (intro exI [of _ 0]) simp
next
  case False
  assume r: "round64 x = Fin q"
  define e where "e = max (floorLog2 \<bar>x\<bar>) (- 1022)"
  have u: "ulpOf x = 2 powi (e - 52)" by (simp add: ulpOf_def e_def powInt_powi)
  have e: "0 \<le> e + 1022" by (simp add: e_def)
  have "e - 52 = (e + 1022) + (- 1074)" by simp
  then have "(2::rat) powi (e - 52) = 2 powi ((e + 1022) + (- 1074))" by (simp only:)
  also have "\<dots> = 2 powi (e + 1022) * grid"
    unfolding grid_def by (rule power_int_add) simp
  also have "(2::rat) powi (e + 1022) = of_int (2 ^ nat (e + 1022))"
    using e by (simp add: power_int_def)
  finally have g: "ulpOf x = of_int (2 ^ nat (e + 1022)) * grid" unfolding u .
  from r False have "q = of_int (roundHalfEven (x / ulpOf x)) * ulpOf x"
    by (simp add: round64_unfold split: if_splits)
  then have "q = of_int (roundHalfEven (x / ulpOf x) * 2 ^ nat (e + 1022)) * grid"
    unfolding g by simp
  then show ?thesis unfolding onGrid_def by blast
qed

lemma round64_nonneg: "0 \<le> x \<Longrightarrow> \<not> orderNegative (round64 x)"
proof (cases "x = 0")
  case True
  then show ?thesis by (simp add: round64_def orderNegative_def)
next
  case False
  assume "0 \<le> x"
  with False have x: "0 < x" by simp
  then have "0 < x / ulpOf x" using ulpOf_pos [of x] by simp
  with roundHalfEven_bounds [of "x / ulpOf x"]
  have "- 1 / 2 < (of_int (roundHalfEven (x / ulpOf x)) :: rat)" by linarith
  then have "0 \<le> roundHalfEven (x / ulpOf x)" by linarith
  then have "0 \<le> (of_int (roundHalfEven (x / ulpOf x)) :: rat) * ulpOf x"
    using ulpOf_pos [of x] by simp
  with x show ?thesis
    by (simp add: round64_unfold [OF False] orderNegative_def)
qed

lemma round64_negative:
  assumes "x < 0" "onGrid x"
  shows "orderNegative (round64 x)"
proof -
  from assms have nz: "x \<noteq> 0" by simp
  have "ulpOf x \<le> \<bar>x\<bar>"
    using ulpOf_le [OF nz] onGrid_magnitude [OF assms(2) nz] by simp
  with assms(1) have "x \<le> - ulpOf x" by simp
  then have "x / ulpOf x \<le> - 1" using ulpOf_pos [of x]
    by (simp add: pos_divide_le_eq)
  with roundHalfEven_bounds [of "x / ulpOf x"]
  have "(of_int (roundHalfEven (x / ulpOf x)) :: rat) \<le> - 1 / 2" by linarith
  then have "roundHalfEven (x / ulpOf x) < 0" by linarith
  then have "(of_int (roundHalfEven (x / ulpOf x)) :: rat) * ulpOf x < 0"
    using ulpOf_pos [of x] by (simp add: mult_neg_pos)
  with assms(1) show ?thesis
    by (simp add: round64_unfold [OF nz] orderNegative_def)
qed

lemma round64_finite:
  assumes "\<bar>x\<bar> \<le> 2 ^ 1000"
  shows "\<exists>q. round64 x = Fin q \<and> \<bar>q\<bar> \<le> 2 * \<bar>x\<bar> + 1"
proof (cases "x = 0")
  case True
  then show ?thesis by (simp add: round64_def)
next
  case False
  define n where "n = roundHalfEven (x / ulpOf x)"
  have up: "0 < ulpOf x" by (rule ulpOf_pos)
  from ulpOf_le [OF False] grid_le_one have ul: "ulpOf x \<le> \<bar>x\<bar> + 1" by linarith
  have "\<bar>of_int n - x / ulpOf x\<bar> \<le> 1 / 2"
    using roundHalfEven_bounds [of "x / ulpOf x"] unfolding n_def by linarith
  then have "\<bar>of_int n - x / ulpOf x\<bar> * ulpOf x \<le> 1 / 2 * ulpOf x"
    using up by (simp add: mult_right_mono)
  moreover have "\<bar>of_int n - x / ulpOf x\<bar> * ulpOf x = \<bar>of_int n * ulpOf x - x\<bar>"
  proof -
    have "\<bar>of_int n - x / ulpOf x\<bar> * ulpOf x = \<bar>(of_int n - x / ulpOf x) * ulpOf x\<bar>"
      using up by (simp add: abs_mult)
    also have "(of_int n - x / ulpOf x) * ulpOf x = of_int n * ulpOf x - x"
      using up by (simp add: field_simps)
    finally show ?thesis .
  qed
  ultimately have "\<bar>of_int n * ulpOf x - x\<bar> \<le> ulpOf x / 2" by simp
  with ul have b: "\<bar>of_int n * ulpOf x\<bar> \<le> 2 * \<bar>x\<bar> + 1" by linarith
  also have "\<dots> < 2 ^ 1024" using assms by simp
  finally have "\<not> 2 ^ 1024 \<le> \<bar>of_int n * ulpOf x\<bar>" by simp
  then have "round64 x = Fin (of_int n * ulpOf x)"
    by (simp add: round64_unfold [OF False] n_def)
  with b show ?thesis by simp
qed

section \<open>The order of the groups when no month is inherited\<close>

lemma monthTable_le: "map_of monthTable k = Some n \<Longrightarrow> n \<le> 12"
  by (auto simp: monthTable_def split: if_splits)

lemma parse_Some_bounds:
  assumes "parseLtFixVersion name = Some p"
  shows "2000 \<le> year p \<and> year p \<le> 2100 \<and> (\<forall>n. month p = MonthNum n \<longrightarrow> n \<le> 12)"
proof -
  from assms obtain p0 p1 rest where sp: "splitWs (trim name) = p0 # p1 # rest"
    by (auto simp: parseLtFixVersion_def split: list.splits)
  with assms obtain y where y: "Number p0 = Fin y"
    by (auto simp: parseLtFixVersion_def split: jsnum.splits)
  with assms sp have r: "\<not> (y < 2000 \<or> 2100 < y)"
    by (auto simp: parseLtFixVersion_def split: if_splits)
  with assms sp y have "year p = y"
    by (auto simp: parseLtFixVersion_def Let_def split: option.splits month_val.splits if_splits)
  moreover have "\<forall>n. month p = MonthNum n \<longrightarrow> n \<le> 12"
    using assms sp y r
    by (auto simp: parseLtFixVersion_def LT_MONTH_TO_NUM_def Let_def
        split: option.splits month_val.splits if_splits dest: monthTable_le)
  ultimately show ?thesis using r by auto
qed

lemma monthKey_finite:
  assumes "parseLtFixVersion name = Some p" "month p = MonthNum n"
  shows "\<exists>q. monthKey p = KeyNum (Fin q) \<and> onGrid q"
proof -
  from parse_Some_bounds [OF assms(1)] assms(2)
  have y: "2000 \<le> year p" "year p \<le> 2100" and n: "n \<le> 12" by auto
  then have "\<bar>year p * 100\<bar> \<le> 210000" by simp
  then have "\<bar>year p * 100\<bar> \<le> 2 ^ 1000" by (rule order_trans) simp
  from round64_finite [OF this] obtain q1 where
    q1: "round64 (year p * 100) = Fin q1" and b1: "\<bar>q1\<bar> \<le> 2 * \<bar>year p * 100\<bar> + 1"
    by blast
  from b1 \<open>\<bar>year p * 100\<bar> \<le> 210000\<close> have "\<bar>q1\<bar> \<le> 420001" by linarith
  moreover have "(of_nat n :: rat) \<le> 12" using n by simp
  ultimately have "\<bar>q1 + of_nat n\<bar> \<le> 420013" by linarith
  then have "\<bar>q1 + of_nat n\<bar> \<le> 2 ^ 1000" by (rule order_trans) simp
  from round64_finite [OF this] obtain q where q: "round64 (q1 + of_nat n) = Fin q" by blast
  then have "onGrid q" by (rule round64_onGrid)
  moreover have "monthKey p = KeyNum (Fin q)"
    using assms(2) q1 q by (simp add: monthKey_def)
  ultimately show ?thesis by blast
qed

lemma compare_keys:
  assumes "onGrid ka" "onGrid kb"
  shows "orderNegative (subNum (Fin kb) (Fin ka)) \<longleftrightarrow> kb < ka"
proof -
  have g: "onGrid (kb - ka)" using assms by (simp add: onGrid_diff)
  have s: "subNum (Fin kb) (Fin ka) = round64 (kb - ka)" by (simp add: subNum_def)
  show ?thesis
  proof (cases "kb < ka")
    case True
    then have "kb - ka < 0" by simp
    from round64_negative [OF this g] True show ?thesis by (simp add: s)
  next
    case False
    then have "0 \<le> kb - ka" by simp
    from round64_nonneg [OF this] False show ?thesis by (simp add: s)
  qed
qed

lemma compareGroups_ranked:
  fixes ck :: "jsstring \<Rightarrow> 'k::linorder"
  assumes col: "\<And>a b. localeCompare a b < 0 \<longleftrightarrow> ck a < ck b"
    and pm: "\<forall>g \<in> S. plainMonth (fixVersion g)"
  shows "ranked (compareGroups localeCompare) (groupRank ck) S"
  unfolding ranked_def
proof (intro ballI)
  fix a b assume ab: "a \<in> S" "b \<in> S"
  show "orderNegative (compareGroups localeCompare a b) \<longleftrightarrow> groupRank ck a < groupRank ck b"
  proof (cases "parseLtFixVersion (fixVersion a)")
    case na: None
    show ?thesis
    proof (cases "parseLtFixVersion (fixVersion b)")
      case None
      with na col show ?thesis
        by (simp add: compareGroups_def groupRank_def orderNegative_def)
    next
      case (Some pb)
      with na show ?thesis
        by (simp add: compareGroups_def groupRank_def orderNegative_def)
    qed
  next
    case sa: (Some pa)
    show ?thesis
    proof (cases "parseLtFixVersion (fixVersion b)")
      case None
      with sa show ?thesis
        by (simp add: compareGroups_def groupRank_def orderNegative_def)
    next
      case (Some pb)
      from pm ab have "plainMonth (fixVersion a)" "plainMonth (fixVersion b)" by auto
      with sa Some obtain na nb where m: "month pa = MonthNum na" "month pb = MonthNum nb"
        by (cases "month pa"; cases "month pb") (simp_all add: plainMonth_def)
      from monthKey_finite [OF sa m(1)] monthKey_finite [OF Some m(2)]
      obtain ka kb where k: "monthKey pa = KeyNum (Fin ka)" "onGrid ka"
        "monthKey pb = KeyNum (Fin kb)" "onGrid kb"
        by blast
      have "orderNegative (compareGroups localeCompare a b) \<longleftrightarrow> kb < ka"
        using sa Some k compare_keys [OF k(2) k(4)] by (simp add: compareGroups_def)
      moreover have "groupRank ck a = (0, - ka, ck [])" "groupRank ck b = (0, - kb, ck [])"
        using sa Some k by (simp_all add: groupRank_def numericKey_def)
      ultimately show ?thesis by simp
    qed
  qed
qed

text \<open>
  The order of the sorted groups on inputs without an inherited month, for fewer than 64
  groups (the lengths at which the sort is modelled). The collation
  of the host is taken to compare by a collation key. In the sorted groups, of two groups
  with numeric keys the earlier has the larger or the same key; after a group whose name
  does not parse no group follows whose name parses; and of two groups whose names do not
  parse, the later one's name does not collate before the earlier one's.
\<close>

theorem groups_newest_first:
  fixes ck :: "jsstring \<Rightarrow> 'k::linorder"
  assumes col: "\<And>a b. localeCompare a b < 0 \<longleftrightarrow> ck a < ck b"
    and pm: "\<forall>g \<in> set gs. plainMonth (fixVersion g)"
    and ij: "i < j" "j < length gs"
    and short: "length gs < 64"
  shows "(\<forall>ki kj. numericKey (fixVersion (arraySort sortLong (compareGroups localeCompare) gs ! i)) = Some ki
            \<and> numericKey (fixVersion (arraySort sortLong (compareGroups localeCompare) gs ! j)) = Some kj
            \<longrightarrow> kj \<le> ki)
    \<and> (parseLtFixVersion (fixVersion (arraySort sortLong (compareGroups localeCompare) gs ! i)) = None
        \<longrightarrow> parseLtFixVersion (fixVersion (arraySort sortLong (compareGroups localeCompare) gs ! j)) = None
            \<and> 0 \<le> localeCompare (fixVersion (arraySort sortLong (compareGroups localeCompare) gs ! j))
                     (fixVersion (arraySort sortLong (compareGroups localeCompare) gs ! i)))
    \<and> set (arraySort sortLong (compareGroups localeCompare) gs) = set gs
    \<and> length (arraySort sortLong (compareGroups localeCompare) gs) = length gs"
proof -
  define out where "out = arraySort sortLong (compareGroups localeCompare) gs"
  have rk: "ranked (compareGroups localeCompare) (groupRank ck) (set gs)"
    by (rule compareGroups_ranked [OF col pm])
  from arraySort_sorted [OF rk short]
  have s: "sorted (map (groupRank ck) out)" and st: "set out = set gs" and ln: "length out = length gs"
    unfolding out_def by simp_all
  from s ij ln have le: "groupRank ck (out ! i) \<le> groupRank ck (out ! j)"
    by (simp add: sorted_iff_nth_mono)
  have 1: "kj \<le> ki" if "numericKey (fixVersion (out ! i)) = Some ki"
    "numericKey (fixVersion (out ! j)) = Some kj" for ki kj
    using le that by (auto simp: groupRank_def numericKey_def split: option.splits)
  have 2: "parseLtFixVersion (fixVersion (out ! j)) = None
      \<and> 0 \<le> localeCompare (fixVersion (out ! j)) (fixVersion (out ! i))"
    if "parseLtFixVersion (fixVersion (out ! i)) = None"
  proof -
    from le that have n: "parseLtFixVersion (fixVersion (out ! j)) = None"
      by (auto simp: groupRank_def split: option.splits)
    with le that have "ck (fixVersion (out ! i)) \<le> ck (fixVersion (out ! j))"
      by (simp add: groupRank_def)
    then have "\<not> localeCompare (fixVersion (out ! j)) (fixVersion (out ! i)) < 0"
      unfolding col by simp
    with n show ?thesis by simp
  qed
  from 1 2 st ln show ?thesis unfolding out_def by blast
qed

lemma parse_zeta: "parseLtFixVersion (lit ''zeta'') = None"
  by (simp add: parseLtFixVersion_def trim_def isWhiteSpace_def)

lemma threeGroups_sorted:
  "map fixVersion (arraySort sortLong (compareGroups byLength) threeGroups)
     = [lit ''2024 sausis'', lit ''2023 sausis'', lit ''zeta'']"
proof -
  have lt: "orderNegative (compareGroups byLength (plainGroup (lit ''2023 sausis'')) (plainGroup (lit ''zeta'')))"
    using parse_zeta parse_2023_sausis
    by (simp add: compareGroups_def plainGroup_def orderNegative_def)
  have lt2: "orderNegative (compareGroups byLength (plainGroup (lit ''2024 sausis'')) (plainGroup (lit ''2023 sausis'')))"
    using parse_2024_sausis parse_2023_sausis key_2023_sausis key_2024_sausis
    by (simp add: compareGroups_def plainGroup_def orderNegative_def subNum_def
        round64_def floorLog2.simps powInt_def roundHalfEven_def Let_def)
  show ?thesis
    using lt lt2
    by (simp add: arraySort_def countAndMakeRun_def threeGroups_def plainGroup_def)
qed

lemma groups_newest_first_example:
  "set (arraySort sortLong (compareGroups byLength) threeGroups) = set threeGroups
   \<and> (\<forall>ki kj. numericKey (fixVersion (arraySort sortLong (compareGroups byLength) threeGroups ! 0)) = Some ki
        \<and> numericKey (fixVersion (arraySort sortLong (compareGroups byLength) threeGroups ! 1)) = Some kj
        \<longrightarrow> kj \<le> ki)"
proof -
  have col: "\<And>a b. byLength a b < 0 \<longleftrightarrow> length a < length b"
    by (simp add: byLength_def)
  have pm: "\<forall>g \<in> set threeGroups. plainMonth (fixVersion g)"
    using parse_zeta parse_2023_sausis parse_2024_sausis
    by (simp add: threeGroups_def plainGroup_def plainMonth_def)
  from groups_newest_first [of byLength length threeGroups 0 1 sortLong, OF col pm]
  show ?thesis by (simp add: threeGroups_def)
qed

end
